theory Spec2Isabelle
  imports Main
begin

section \<open>Arrays and Python indexing\<close>

text \<open>
  The program keeps its generations in two-dimensional numpy integer arrays, indexed
  \<open>state[x, y]\<close> with \<open>x\<close> along axis 0. An array of shape \<open>(W, H)\<close> is the list of its
  \<open>W\<close> rows, each a list of \<open>H\<close> cells. Cells are Python/numpy integers; the only
  arithmetic on them is the sum of at most nine cells, so they are modelled as \<open>int\<close>.
  The canvas keeps its rectangle ids in a nested Python list, indexed the same way.
\<close>

datatype error = IndexError | ValueError

type_synonym ndarray = "int list list"

definition shape0 :: "'a list list \<Rightarrow> nat" where
  "shape0 a = length a"

definition shape1 :: "'a list list \<Rightarrow> nat" where
  "shape1 a = (case a of [] \<Rightarrow> 0 | r # _ \<Rightarrow> length r)"

text \<open>
  \<open>a[i]\<close> on an axis of length \<open>n\<close>: an index in \<open>[0, n)\<close> is itself, an index in
  \<open>[-n, 0)\<close> counts from the end, anything else raises \<open>IndexError\<close>.
\<close>

definition py_index :: "nat \<Rightarrow> int \<Rightarrow> error + nat" where
  "py_index n i =
     (if 0 \<le> i \<and> i < int n then Inr (nat i)
      else if i < 0 \<and> - int n \<le> i then Inr (nat (i + int n))
      else Inl IndexError)"

text \<open>Reading \<open>a[x][y]\<close> (and numpy's \<open>a[x, y]\<close>).\<close>

definition getitem :: "'a list list \<Rightarrow> int \<Rightarrow> int \<Rightarrow> error + 'a" where
  "getitem a x y =
     (case py_index (length a) x of
        Inl e \<Rightarrow> Inl e
      | Inr i \<Rightarrow>
          (case py_index (length (a ! i)) y of
             Inl e \<Rightarrow> Inl e
           | Inr j \<Rightarrow> Inr (a ! i ! j)))"

text \<open>The assignment \<open>a[x][y] = v\<close> (and numpy's \<open>a[x, y] = v\<close>).\<close>

definition setitem :: "'a list list \<Rightarrow> int \<Rightarrow> int \<Rightarrow> 'a \<Rightarrow> error + 'a list list" where
  "setitem a x y v =
     (case py_index (length a) x of
        Inl e \<Rightarrow> Inl e
      | Inr i \<Rightarrow>
          (case py_index (length (a ! i)) y of
             Inl e \<Rightarrow> Inl e
           | Inr j \<Rightarrow> Inr (a[i := (a ! i)[j := v]])))"

text \<open>
  A slice bound of \<open>a[lo:hi]\<close> on an axis of length \<open>n\<close>: a negative bound has \<open>n\<close>
  added and is then clipped at \<open>0\<close>, a non-negative one is clipped at \<open>n\<close>. A slice never
  raises; it is empty when the clipped start is not below the clipped stop.
\<close>

definition slice_index :: "nat \<Rightarrow> int \<Rightarrow> nat" where
  "slice_index n i = (if i < 0 then nat (max 0 (i + int n)) else min (nat i) n)"

definition py_slice :: "'a list \<Rightarrow> int \<Rightarrow> int \<Rightarrow> 'a list" where
  "py_slice xs lo hi =
     take (slice_index (length xs) hi - slice_index (length xs) lo)
       (drop (slice_index (length xs) lo) xs)"

text \<open>The window \<open>state[x - 1:x + 2, y - 1:y + 2]\<close> and \<open>np.sum\<close>.\<close>

definition window :: "ndarray \<Rightarrow> int \<Rightarrow> int \<Rightarrow> ndarray" where
  "window state x y = map (\<lambda>r. py_slice r (y - 1) (y + 2)) (py_slice state (x - 1) (x + 2))"

definition np_sum :: "ndarray \<Rightarrow> int" where
  "np_sum a = sum_list (map sum_list a)"

definition np_zeros :: "nat \<Rightarrow> nat \<Rightarrow> ndarray" where
  "np_zeros n m = replicate n (replicate m 0)"

section \<open>The two transition functions\<close>

text \<open>
  \<open>is_alive\<close> (no wrapping): the neighbour count is the sum of the 3x3 window minus the
  cell itself, the window being taken by slicing with no adjustment of the bounds.
\<close>

definition neighbors_alive :: "int \<Rightarrow> int \<Rightarrow> ndarray \<Rightarrow> error + int" where
  "neighbors_alive x y state =
     (case getitem state x y of
        Inl e \<Rightarrow> Inl e
      | Inr c \<Rightarrow> Inr (np_sum (window state x y) - c))"

definition is_alive :: "int \<Rightarrow> int \<Rightarrow> ndarray \<Rightarrow> error + bool" where
  "is_alive x y state =
     (case neighbors_alive x y state of
        Inl e \<Rightarrow> Inl e
      | Inr n \<Rightarrow>
          (case getitem state x y of
             Inl e \<Rightarrow> Inl e
           | Inr c \<Rightarrow>
               Inr (if c = 1 then (if n < 2 \<or> n > 3 then False else True)
                    else if n = 3 then True
                    else False)))"

text \<open>
  \<open>is_alive_wrapping\<close>: strictly interior cells use the window sum; the others run the
  double loop over \<open>i, j\<close> in \<open>range(-1, 2, 1)\<close>, skip \<open>(0, 0)\<close>, replace a coordinate at or
  beyond the shape by \<open>0\<close>, and count the cells equal to \<open>1\<close>. A coordinate \<open>-1\<close> is left as
  it is and reaches the last row or column through the array's negative indexing.
\<close>

definition offsets :: "(int \<times> int) list" where
  "offsets = List.product [-1, 0, 1] [-1, 0, 1]"

fun count_loop :: "int \<Rightarrow> int \<Rightarrow> ndarray \<Rightarrow> (int \<times> int) list \<Rightarrow> int \<Rightarrow> error + int" where
  "count_loop x y state [] n = Inr n"
| "count_loop x y state ((i, j) # rest) n =
     (if i = 0 \<and> j = 0 then count_loop x y state rest n
      else
        (let cx = x + i;
             cy = y + j;
             cx = (if cx \<ge> int (shape0 state) then 0 else cx);
             cy = (if cy \<ge> int (shape1 state) then 0 else cy)
         in case getitem state cx cy of
              Inl e \<Rightarrow> Inl e
            | Inr v \<Rightarrow> count_loop x y state rest (if v = 1 then n + 1 else n)))"

definition neighbors_alive_wrapping :: "int \<Rightarrow> int \<Rightarrow> ndarray \<Rightarrow> error + int" where
  "neighbors_alive_wrapping x y state =
     (if (0 < x \<and> x < int (shape0 state) - 1) \<and> (0 < y \<and> y < int (shape1 state) - 1)
      then (case getitem state x y of
              Inl e \<Rightarrow> Inl e
            | Inr c \<Rightarrow> Inr (np_sum (window state x y) - c))
      else count_loop x y state offsets 0)"

definition is_alive_wrapping :: "int \<Rightarrow> int \<Rightarrow> ndarray \<Rightarrow> error + bool" where
  "is_alive_wrapping x y state =
     (case neighbors_alive_wrapping x y state of
        Inl e \<Rightarrow> Inl e
      | Inr n \<Rightarrow>
          (case getitem state x y of
             Inl e \<Rightarrow> Inl e
           | Inr c \<Rightarrow>
               Inr (if c = 1 then (if n < 2 \<or> n > 3 then False else True)
                    else if n = 3 then True
                    else False)))"

section \<open>The engine: class \<open>GameOfLife\<close>\<close>

text \<open>
  The engine holds references to two arrays and the program assigns references
  (\<open>self.last_state = self.cur_state\<close>) as well as cells in place
  (\<open>self.gol.cur_state[x][y] = 1\<close>), so the arrays live in an explicit store: a heap is
  the list of the arrays allocated so far, an address is a position in it, and an
  allocation (\<open>np.copy\<close>, \<open>np.zeros\<close>) appends. A method takes the heap and the object
  and returns its result, \<open>Inl\<close> for a raised exception, with the heap and the object as
  they are when it returns or raises.
\<close>

type_synonym addr = nat

type_synonym heap = "ndarray list"

datatype alive_fn = Is_alive_wrapping | Is_alive

fun call_alive_func :: "alive_fn \<Rightarrow> int \<Rightarrow> int \<Rightarrow> ndarray \<Rightarrow> error + bool" where
  "call_alive_func Is_alive_wrapping x y state = is_alive_wrapping x y state"
| "call_alive_func Is_alive x y state = is_alive x y state"

record GameOfLife =
  w :: nat
  h :: nat
  last_state :: addr
  cur_state :: addr
  wrapping :: bool
  alive_func :: alive_fn

text \<open>
  \<open>__init__(self, initial_state, wrapping)\<close>: \<open>last_state\<close> is the caller's array itself,
  \<open>cur_state\<close> a fresh copy of it.
\<close>

definition GameOfLife_init :: "addr \<Rightarrow> bool \<Rightarrow> heap \<Rightarrow> heap \<times> GameOfLife" where
  "GameOfLife_init initial_state wr hp =
     (hp @ [hp ! initial_state],
      \<lparr>w = shape0 (hp ! initial_state),
       h = shape1 (hp ! initial_state),
       last_state = initial_state,
       cur_state = length hp,
       wrapping = wr,
       alive_func = (if wr then Is_alive_wrapping else Is_alive)\<rparr>)"

text \<open>
  The \<open>while not it.finished\<close> loop of \<open>get_next_state\<close>, over the multi-indices still to
  visit: it reads the array at \<open>cur\<close> and writes the array at \<open>pending\<close>.
\<close>

fun nditer_loop ::
  "alive_fn \<Rightarrow> addr \<Rightarrow> addr \<Rightarrow> (nat \<times> nat) list \<Rightarrow> heap \<Rightarrow> (error + unit) \<times> heap" where
  "nditer_loop f cur pending [] hp = (Inr (), hp)"
| "nditer_loop f cur pending ((x, y) # rest) hp =
     (case call_alive_func f (int x) (int y) (hp ! cur) of
        Inl e \<Rightarrow> (Inl e, hp)
      | Inr alive \<Rightarrow>
          (case setitem (hp ! pending) (int x) (int y) (if alive then 1 else 0) of
             Inl e \<Rightarrow> (Inl e, hp)
           | Inr a \<Rightarrow> nditer_loop f cur pending rest (hp[pending := a])))"

text \<open>
  \<open>get_next_state(self, check_static)\<close>. \<open>np.nditer\<close> visits the multi-indices in row-major
  order and refuses an array with no element (\<open>ValueError\<close>: iteration of zero-sized
  operands is not enabled), after \<open>last_state\<close> has been assigned and the zero array
  allocated. \<open>np.array_equal\<close> is equality of shape and of all elements.
\<close>

definition get_next_state ::
  "bool \<Rightarrow> heap \<times> GameOfLife \<Rightarrow> (error + bool) \<times> heap \<times> GameOfLife" where
  "get_next_state check_static s =
     (let (hp, self) = s;
          self1 = self\<lparr>last_state := cur_state self\<rparr>;
          pending_state = length hp;
          hp1 = hp @ [np_zeros (shape0 (hp ! last_state self1)) (shape1 (hp ! last_state self1))];
          cur = hp1 ! cur_state self1
      in if shape0 cur = 0 \<or> shape1 cur = 0 then (Inl ValueError, hp1, self1)
         else
           (case nditer_loop (alive_func self1) (cur_state self1) pending_state
                   (List.product [0..<shape0 cur] [0..<shape1 cur]) hp1 of
              (Inl e, hp2) \<Rightarrow> (Inl e, hp2, self1)
            | (Inr u, hp2) \<Rightarrow>
                (let self2 = self1\<lparr>cur_state := pending_state\<rparr>
                 in (Inr (if check_static then hp2 ! last_state self2 = hp2 ! cur_state self2
                          else False),
                     hp2, self2))))"

text \<open>
  \<open>run(self, iters, print)\<close>: \<open>range(iters)\<close> is empty for a negative \<open>iters\<close>. What
  \<open>self.print()\<close> writes is collected in a list of the arrays printed.
\<close>

fun run_loop ::
  "nat \<Rightarrow> bool \<Rightarrow> ndarray list \<Rightarrow> heap \<times> GameOfLife
     \<Rightarrow> (error + unit) \<times> ndarray list \<times> heap \<times> GameOfLife" where
  "run_loop 0 pr out s = (Inr (), out, s)"
| "run_loop (Suc n) pr out s =
     (case get_next_state True s of
        (Inl e, s1) \<Rightarrow> (Inl e, out, s1)
      | (Inr b, s1) \<Rightarrow>
          run_loop n pr (if pr then out @ [fst s1 ! cur_state (snd s1)] else out) s1)"

definition run ::
  "int \<Rightarrow> bool \<Rightarrow> heap \<times> GameOfLife \<Rightarrow> (error + unit) \<times> ndarray list \<times> heap \<times> GameOfLife" where
  "run iters pr s = run_loop (nat iters) pr [] s"

section \<open>The canvas: class \<open>GOLCanvasCells\<close>\<close>

text \<open>
  Of the Tk canvas only the item ids are kept: \<open>create_rectangle\<close> and \<open>create_line\<close>
  return a fresh id, counted from 1, and \<open>delete\<close> removes an item. \<open>cells[x][y]\<close> is the
  id of the rectangle drawn for the cell, or \<open>None\<close>.
\<close>

record Canvas =
  next_id :: nat
  items :: "nat list"

definition new_canvas :: Canvas where
  "new_canvas = \<lparr>next_id = 1, items = []\<rparr>"

definition create_item :: "Canvas \<Rightarrow> nat \<times> Canvas" where
  "create_item c = (next_id c, c\<lparr>next_id := Suc (next_id c), items := items c @ [next_id c]\<rparr>)"

definition delete_item :: "Canvas \<Rightarrow> nat option \<Rightarrow> Canvas" where
  "delete_item c i = (case i of None \<Rightarrow> c | Some k \<Rightarrow> c\<lparr>items := removeAll k (items c)\<rparr>)"

text \<open>Python's truth value of \<open>cells[x][y]\<close>: \<open>None\<close> and \<open>0\<close> are false.\<close>

definition truthy :: "nat option \<Rightarrow> bool" where
  "truthy c = (case c of None \<Rightarrow> False | Some k \<Rightarrow> k \<noteq> 0)"

text \<open>The cell width and height, set to the literal 15 by \<open>__init__\<close> and never assigned again.\<close>

definition cw :: int where
  "cw = 15"

definition ch :: int where
  "ch = 15"

record GOLCanvasCells =
  cv_w :: nat
  cv_h :: nat
  gol :: GameOfLife
  canvas :: Canvas
  cells :: "nat option list list"

text \<open>\<open>draw_lines\<close> creates two border lines and one line per column and per row.\<close>

fun draw_lines :: "nat \<Rightarrow> Canvas \<Rightarrow> Canvas" where
  "draw_lines 0 c = c"
| "draw_lines (Suc n) c = draw_lines n (snd (create_item c))"

text \<open>\<open>__init__(self, frame, w, h)\<close>: a zero grid of shape \<open>(w, h)\<close>, wrapping edges.\<close>

definition GOLCanvasCells_init :: "nat \<Rightarrow> nat \<Rightarrow> heap \<Rightarrow> heap \<times> GOLCanvasCells" where
  "GOLCanvasCells_init W H hp =
     (let (hp1, g) = GameOfLife_init (length hp) True (hp @ [np_zeros W H])
      in (hp1,
          \<lparr>cv_w = W, cv_h = H, gol = g,
           canvas = draw_lines (2 + W + H) new_canvas,
           cells = replicate W (replicate H None)\<rparr>))"

text \<open>
  \<open>toggle_cell(self, event)\<close>, the event given by its pixel coordinates. \<open>//\<close> is floor
  division, as \<open>div\<close> on \<open>int\<close> is.
\<close>

definition toggle_cell ::
  "int \<times> int \<Rightarrow> heap \<times> GOLCanvasCells \<Rightarrow> (error + unit) \<times> heap \<times> GOLCanvasCells" where
  "toggle_cell event s =
     (let (hp, self) = s;
          x = fst event div cw;
          y = snd event div ch
      in case getitem (cells self) x y of
           Inl e \<Rightarrow> (Inl e, hp, self)
         | Inr c \<Rightarrow>
             if \<not> truthy c then
               (case setitem (hp ! cur_state (gol self)) x y 1 of
                  Inl e \<Rightarrow> (Inl e, hp, self)
                | Inr a \<Rightarrow>
                    (let hp1 = hp[cur_state (gol self) := a];
                         (r, c1) = create_item (canvas self);
                         self1 = self\<lparr>canvas := c1\<rparr>
                     in case setitem (cells self1) x y (Some r) of
                          Inl e \<Rightarrow> (Inl e, hp1, self1)
                        | Inr cs \<Rightarrow> (Inr (), hp1, self1\<lparr>cells := cs\<rparr>)))
             else
               (case setitem (hp ! cur_state (gol self)) x y 0 of
                  Inl e \<Rightarrow> (Inl e, hp, self)
                | Inr a \<Rightarrow>
                    (let hp1 = hp[cur_state (gol self) := a];
                         self1 = self\<lparr>canvas := delete_item (canvas self) c\<rparr>
                     in case setitem (cells self1) x y None of
                          Inl e \<Rightarrow> (Inl e, hp1, self1)
                        | Inr cs \<Rightarrow> (Inr (), hp1, self1\<lparr>cells := cs\<rparr>))))"

text \<open>\<open>clear_canvas(self)\<close>: the double loop over \<open>range(self.w)\<close> and \<open>range(self.h)\<close>.\<close>

fun clear_canvas_loop ::
  "(nat \<times> nat) list \<Rightarrow> GOLCanvasCells \<Rightarrow> (error + unit) \<times> GOLCanvasCells" where
  "clear_canvas_loop [] self = (Inr (), self)"
| "clear_canvas_loop ((x, y) # rest) self =
     (case getitem (cells self) (int x) (int y) of
        Inl e \<Rightarrow> (Inl e, self)
      | Inr c \<Rightarrow>
          if truthy c then
            (let self1 = self\<lparr>canvas := delete_item (canvas self) c\<rparr>
             in case setitem (cells self1) (int x) (int y) None of
                  Inl e \<Rightarrow> (Inl e, self1)
                | Inr cs \<Rightarrow> clear_canvas_loop rest (self1\<lparr>cells := cs\<rparr>))
          else clear_canvas_loop rest self)"

definition clear_canvas :: "GOLCanvasCells \<Rightarrow> (error + unit) \<times> GOLCanvasCells" where
  "clear_canvas self = clear_canvas_loop (List.product [0..<cv_w self] [0..<cv_h self]) self"

text \<open>
  \<open>clear(self)\<close>: \<open>clear_canvas\<close>, then the double loop assigning
  \<open>self.gol.cur_state[x][y] = 0\<close> in place.
\<close>

fun clear_loop :: "addr \<Rightarrow> (nat \<times> nat) list \<Rightarrow> heap \<Rightarrow> (error + unit) \<times> heap" where
  "clear_loop a [] hp = (Inr (), hp)"
| "clear_loop a ((x, y) # rest) hp =
     (case setitem (hp ! a) (int x) (int y) 0 of
        Inl e \<Rightarrow> (Inl e, hp)
      | Inr arr \<Rightarrow> clear_loop a rest (hp[a := arr]))"

definition clear :: "heap \<times> GOLCanvasCells \<Rightarrow> (error + unit) \<times> heap \<times> GOLCanvasCells" where
  "clear s =
     (let (hp, self) = s
      in case clear_canvas self of
           (Inl e, self1) \<Rightarrow> (Inl e, hp, self1)
         | (Inr u, self1) \<Rightarrow>
             (case clear_loop (cur_state (gol self1))
                     (List.product [0..<cv_w self1] [0..<cv_h self1]) hp of
                (Inl e, hp1) \<Rightarrow> (Inl e, hp1, self1)
              | (Inr u, hp1) \<Rightarrow> (Inr (), hp1, self1)))"

section \<open>Well-formed states and reference definitions\<close>

text \<open>An array of shape \<open>(W, H)\<close>, and an array whose cells are all \<open>0\<close> or \<open>1\<close>.\<close>

definition shaped :: "nat \<Rightarrow> nat \<Rightarrow> 'a list list \<Rightarrow> bool" where
  "shaped W H a \<longleftrightarrow> length a = W \<and> (\<forall>r\<in>set a. length r = H)"

definition binary :: "ndarray \<Rightarrow> bool" where
  "binary a \<longleftrightarrow> (\<forall>r\<in>set a. \<forall>c\<in>set r. c = 0 \<or> c = 1)"

text \<open>
  An engine state of a \<open>W\<close> by \<open>H\<close> grid, both at least 1: the two references are
  allocated, they are different arrays, and both arrays have the shape \<open>(W, H)\<close>.
  \<open>GameOfLife_init\<close> establishes this and every method keeps it (lemmas
  \<open>engine_state_init\<close>, \<open>engine_state_step\<close>, \<open>canvas_state_toggle\<close>,
  \<open>canvas_state_clear\<close>).
\<close>

definition engine_state :: "nat \<Rightarrow> nat \<Rightarrow> heap \<times> GameOfLife \<Rightarrow> bool" where
  "engine_state W H s \<longleftrightarrow>
     0 < W \<and> 0 < H \<and>
     last_state (snd s) < length (fst s) \<and> cur_state (snd s) < length (fst s) \<and>
     last_state (snd s) \<noteq> cur_state (snd s) \<and>
     shaped W H (fst s ! last_state (snd s)) \<and> shaped W H (fst s ! cur_state (snd s))"

text \<open>A canvas over such an engine: its \<open>w\<close>, \<open>h\<close> and \<open>cells\<close> have the engine's shape.\<close>

definition canvas_state :: "nat \<Rightarrow> nat \<Rightarrow> heap \<times> GOLCanvasCells \<Rightarrow> bool" where
  "canvas_state W H s \<longleftrightarrow>
     engine_state W H (fst s, gol (snd s)) \<and>
     cv_w (snd s) = W \<and> cv_h (snd s) = H \<and> shaped W H (cells (snd s))"

text \<open>The current and the previous generation of a state.\<close>

definition cur_grid :: "heap \<times> GameOfLife \<Rightarrow> ndarray" where
  "cur_grid s = fst s ! cur_state (snd s)"

definition last_grid :: "heap \<times> GameOfLife \<Rightarrow> ndarray" where
  "last_grid s = fst s ! last_state (snd s)"

text \<open>
  The generation that follows \<open>state\<close> under the transition function \<open>f\<close>, cell by cell;
  \<open>get_next_state\<close> is shown to compute it (lemma \<open>get_next_state_eq\<close>).
\<close>

definition alive_at :: "alive_fn \<Rightarrow> ndarray \<Rightarrow> nat \<Rightarrow> nat \<Rightarrow> bool" where
  "alive_at f state x y =
     (case call_alive_func f (int x) (int y) state of Inl e \<Rightarrow> False | Inr b \<Rightarrow> b)"

definition next_grid :: "alive_fn \<Rightarrow> ndarray \<Rightarrow> ndarray" where
  "next_grid f state =
     map (\<lambda>x. map (\<lambda>y. if alive_at f state x y then 1 else 0) [0..<shape1 state])
       [0..<shape0 state]"

text \<open>
  The eight offsets of the specification, and its two neighbour counts: the number of
  ALIVE cells among the in-bounds positions of the 8-neighbourhood, and the sum of the
  cells at the coordinates wrapped by a non-negative modulo.
\<close>

definition neighbor_offsets :: "(int \<times> int) list" where
  "neighbor_offsets = filter (\<lambda>d. d \<noteq> (0, 0)) (List.product [-1, 0, 1] [-1, 0, 1])"

definition inbounds_count_spec :: "ndarray \<Rightarrow> nat \<Rightarrow> nat \<Rightarrow> int" where
  "inbounds_count_spec state x y =
     sum_list (map (\<lambda>(dx, dy).
        if 0 \<le> int x + dx \<and> int x + dx < int (shape0 state) \<and>
           0 \<le> int y + dy \<and> int y + dy < int (shape1 state) \<and>
           state ! nat (int x + dx) ! nat (int y + dy) = 1
        then 1 else 0) neighbor_offsets)"

definition toroidal_count_spec :: "ndarray \<Rightarrow> nat \<Rightarrow> nat \<Rightarrow> int" where
  "toroidal_count_spec state x y =
     sum_list (map (\<lambda>(dx, dy).
        state ! nat ((int x + dx) mod int (shape0 state))
              ! nat ((int y + dy) mod int (shape1 state))) neighbor_offsets)"

text \<open>\<open>n\<close> successive explicit calls of \<open>get_next_state()\<close>, the results dropped.\<close>

fun steps :: "nat \<Rightarrow> heap \<times> GameOfLife \<Rightarrow> heap \<times> GameOfLife" where
  "steps 0 s = s"
| "steps (Suc n) s = steps n (snd (get_next_state True s))"

text \<open>
  The operations on a canvas and its engine, and a sequence of them. An operation that
  raises leaves the state as it is at the raise, and the sequence goes on (Tk reports an
  exception of a callback and keeps running).
\<close>

datatype op = Step bool | Toggle int int | Clear

fun apply_op :: "op \<Rightarrow> heap \<times> GOLCanvasCells \<Rightarrow> heap \<times> GOLCanvasCells" where
  "apply_op (Step check_static) s =
     (case get_next_state check_static (fst s, gol (snd s)) of
        (r, hp, g) \<Rightarrow> (hp, (snd s)\<lparr>gol := g\<rparr>))"
| "apply_op (Toggle ex ey) s = snd (toggle_cell (ex, ey) s)"
| "apply_op Clear s = snd (clear s)"

fun apply_ops :: "op list \<Rightarrow> heap \<times> GOLCanvasCells \<Rightarrow> heap \<times> GOLCanvasCells" where
  "apply_ops [] s = s"
| "apply_ops (c # cs) s = apply_ops cs (apply_op c s)"

text \<open>The blinker on a 5 by 5 grid: ALIVE at (1,2), (2,2), (3,2), and at (2,1), (2,2), (2,3).\<close>

definition blinker_a :: ndarray where
  "blinker_a = [[0,0,0,0,0], [0,0,1,0,0], [0,0,1,0,0], [0,0,1,0,0], [0,0,0,0,0]]"

definition blinker_b :: ndarray where
  "blinker_b = [[0,0,0,0,0], [0,0,0,0,0], [0,1,1,1,0], [0,0,0,0,0], [0,0,0,0,0]]"

text \<open>The engine of a canvas, with the heap.\<close>

definition engine_of :: "heap \<times> GOLCanvasCells \<Rightarrow> heap \<times> GameOfLife" where
  "engine_of s = (fst s, gol (snd s))"

text \<open>
  Both generations are allocated, have the shape \<open>(W, H)\<close> and hold only \<open>0\<close> and \<open>1\<close>.
\<close>

definition grids_ok :: "nat \<Rightarrow> nat \<Rightarrow> heap \<times> GameOfLife \<Rightarrow> bool" where
  "grids_ok W H s \<longleftrightarrow>
     last_state (snd s) < length (fst s) \<and> cur_state (snd s) < length (fst s) \<and>
     shaped W H (last_grid s) \<and> shaped W H (cur_grid s) \<and>
     binary (last_grid s) \<and> binary (cur_grid s)"

text \<open>
  A 4 by 4 canvas on which the four cells of the block (1,1), (1,2), (2,1), (2,2) have
  been clicked (cells are 15 pixels wide and high) and one step has been made: the block
  is a still life, so both generations hold it.
\<close>

definition block_canvas :: "heap \<times> GOLCanvasCells" where
  "block_canvas =
     apply_ops [Toggle 15 15, Toggle 15 30, Toggle 30 15, Toggle 30 30, Step True]
       (GOLCanvasCells_init 4 4 [])"

section \<open>Indexing lemmas\<close>

lemma py_index_nat: "i < n \<Longrightarrow> py_index n (int i) = Inr i"
  by (simp add: py_index_def)

lemma shaped_row: "shaped W H a \<Longrightarrow> x < W \<Longrightarrow> length (a ! x) = H"
  by (simp add: shaped_def)

lemma shaped_length: "shaped W H a \<Longrightarrow> length a = W"
  by (simp add: shaped_def)

lemma shaped_shape0: "shaped W H a \<Longrightarrow> shape0 a = W"
  by (simp add: shaped_def shape0_def)

lemma shaped_shape1: "shaped W H a \<Longrightarrow> 0 < W \<Longrightarrow> shape1 a = H"
  by (cases a) (auto simp: shaped_def shape1_def)

lemma getitem_nat:
  "x < length a \<Longrightarrow> y < length (a ! x) \<Longrightarrow> getitem a (int x) (int y) = Inr (a ! x ! y)"
  by (simp add: getitem_def py_index_nat)

lemma setitem_nat:
  "x < length a \<Longrightarrow> y < length (a ! x) \<Longrightarrow>
   setitem a (int x) (int y) v = Inr (a[x := (a ! x)[y := v]])"
  by (simp add: setitem_def py_index_nat)

lemma binary_nth:
  "binary a \<Longrightarrow> x < length a \<Longrightarrow> y < length (a ! x) \<Longrightarrow> a ! x ! y = 0 \<or> a ! x ! y = 1"
  unfolding binary_def by (meson nth_mem)

lemma py_index_wrap:
  assumes "x < W" "i = -1 \<or> i = 0 \<or> i = 1"
  shows "py_index W (if int x + i \<ge> int W then 0 else int x + i)
         = Inr (nat ((int x + i) mod int W))"
proof -
  consider "int x + i = int W" | "int x + i = -1" | "0 \<le> int x + i" "int x + i < int W"
    using assms by linarith
  then show ?thesis
  proof cases
    case 1
    then show ?thesis using assms by (simp add: py_index_def)
  next
    case 2
    have "(- 1) mod int W = int W - 1" using assms(1) by (simp add: zmod_minus1)
    then show ?thesis using 2 assms(1) by (simp add: py_index_def)
  next
    case 3
    then show ?thesis by (simp add: py_index_def)
  qed
qed

section \<open>Array updates and the loops\<close>


lemma shaped_update:
  assumes "shaped W H a"
  shows "shaped W H (a[x := (a ! x)[y := v]])"
proof (cases "x < length a")
  case True
  have len: "length ((a ! x)[y := v]) = H"
    using assms True by (simp add: shaped_def)
  have "\<And>r. r \<in> set (a[x := (a ! x)[y := v]]) \<Longrightarrow> length r = H"
  proof -
    fix r assume "r \<in> set (a[x := (a ! x)[y := v]])"
    then have "r = (a ! x)[y := v] \<or> r \<in> set a"
      using set_update_subset_insert[of a x "(a ! x)[y := v]"] by (meson insertE subsetD)
    then show "length r = H" using len assms by (auto simp: shaped_def)
  qed
  then show ?thesis using assms by (simp add: shaped_def)
next
  case False
  then have "a[x := (a ! x)[y := v]] = a" by (simp add: list_update_beyond)
  then show ?thesis using assms by simp
qed

lemma binary_update:
  assumes "binary a" "v = 0 \<or> v = 1"
  shows "binary (a[x := (a ! x)[y := v]])"
proof (cases "x < length a")
  case True
  have row: "\<And>c. c \<in> set ((a ! x)[y := v]) \<Longrightarrow> c = 0 \<or> c = 1"
  proof -
    fix c assume "c \<in> set ((a ! x)[y := v])"
    then have "c = v \<or> c \<in> set (a ! x)"
      using set_update_subset_insert[of "a ! x" y v] by (meson insertE subsetD)
    moreover have "a ! x \<in> set a" using True by simp
    ultimately show "c = 0 \<or> c = 1" using assms unfolding binary_def by metis
  qed
  have "\<And>r c. r \<in> set (a[x := (a ! x)[y := v]]) \<Longrightarrow> c \<in> set r \<Longrightarrow> c = 0 \<or> c = 1"
  proof -
    fix r c assume r: "r \<in> set (a[x := (a ! x)[y := v]])" and c: "c \<in> set r"
    from r have "r = (a ! x)[y := v] \<or> r \<in> set a"
      using set_update_subset_insert[of a x "(a ! x)[y := v]"] by (meson insertE subsetD)
    then show "c = 0 \<or> c = 1" using row c assms(1) unfolding binary_def by metis
  qed
  then show ?thesis unfolding binary_def by metis
next
  case False
  then have "a[x := (a ! x)[y := v]] = a" by (simp add: list_update_beyond)
  then show ?thesis using assms by simp
qed



lemma count_loop_sum:
  assumes "shaped W H a" "x < W" "y < H"
  shows "\<forall>d\<in>set offs. (fst d = -1 \<or> fst d = 0 \<or> fst d = 1) \<and> (snd d = -1 \<or> snd d = 0 \<or> snd d = 1) \<Longrightarrow>
     count_loop (int x) (int y) a offs n =
       Inr (n + sum_list (map (\<lambda>(i, j).
                if a ! nat ((int x + i) mod int W) ! nat ((int y + j) mod int H) = 1 then 1 else 0)
              (filter (\<lambda>d. d \<noteq> (0, 0)) offs)))"
proof (induction offs arbitrary: n)
  case Nil
  then show ?case by simp
next
  case (Cons d offs)
  obtain i j where d: "d = (i, j)" by (cases d)
  have ij: "i = -1 \<or> i = 0 \<or> i = 1" "j = -1 \<or> j = 0 \<or> j = 1"
    using Cons.prems d by auto
  have rest: "\<forall>d\<in>set offs. (fst d = -1 \<or> fst d = 0 \<or> fst d = 1) \<and> (snd d = -1 \<or> snd d = 0 \<or> snd d = 1)"
    using Cons.prems by simp
  have W: "shape0 a = W" "length a = W" using assms by (simp_all add: shaped_def shape0_def)
  have H1: "shape1 a = H" using assms shaped_shape1 by (metis gr_implies_not0 gr0I)
  have px: "py_index W (if int x + i \<ge> int W then 0 else int x + i) = Inr (nat ((int x + i) mod int W))"
    using py_index_wrap[OF assms(2) ij(1)] .
  have py: "py_index H (if int y + j \<ge> int H then 0 else int y + j) = Inr (nat ((int y + j) mod int H))"
    using py_index_wrap[OF assms(3) ij(2)] .
  have lt: "nat ((int x + i) mod int W) < W" using assms(2)
    by (metis (no_types, opaque_lifting) Euclidean_Rings.pos_mod_bound Euclidean_Rings.pos_mod_sign gr_implies_not0 nat_less_iff of_nat_0_less_iff gr0I)
  have rowlen: "length (a ! nat ((int x + i) mod int W)) = H"
    using shaped_row[OF assms(1) lt] .
  have g: "getitem a (if int x + i \<ge> int W then 0 else int x + i) (if int y + j \<ge> int H then 0 else int y + j)
           = Inr (a ! nat ((int x + i) mod int W) ! nat ((int y + j) mod int H))"
    unfolding getitem_def W px using rowlen py by simp
  show ?case
  proof (cases "i = 0 \<and> j = 0")
    case True
    then show ?thesis using Cons.IH[OF rest] d by simp
  next
    case False
    then have "d \<noteq> (0, 0)" using d by simp
    then show ?thesis using Cons.IH[OF rest] d False g W H1
      by (simp add: Let_def)
  qed
qed

lemma fold_write:
  assumes "\<forall>p\<in>set idxs. fst p < W \<and> snd p < H"
  shows "shaped W H a \<Longrightarrow>
     shaped W H (fold (\<lambda>(x, y) b. b[x := (b ! x)[y := v x y]]) idxs a) \<and>
     (\<forall>x<W. \<forall>y<H. fold (\<lambda>(x, y) b. b[x := (b ! x)[y := v x y]]) idxs a ! x ! y
         = (if (x, y) \<in> set idxs then v x y else a ! x ! y))"
  using assms
proof (induction idxs arbitrary: a)
  case Nil
  then show ?case by simp
next
  case (Cons p idxs)
  obtain i j where p: "p = (i, j)" by (cases p)
  have ij: "i < W" "j < H" using Cons.prems(2) p by auto
  let ?a1 = "a[i := (a ! i)[j := v i j]]"
  have s1: "shaped W H ?a1" using Cons.prems(1) by (rule shaped_update)
  have rest: "\<forall>p\<in>set idxs. fst p < W \<and> snd p < H" using Cons.prems(2) by simp
  note IH = Cons.IH[OF s1 rest]
  have la: "length a = W" using Cons.prems(1) by (simp add: shaped_def)
  have lr: "length (a ! i) = H" using Cons.prems(1) ij by (simp add: shaped_def)
  have cell: "\<And>x y. x < W \<Longrightarrow> y < H \<Longrightarrow>
      ?a1 ! x ! y = (if (x, y) = (i, j) then v i j else a ! x ! y)"
    using la lr ij by (simp add: nth_list_update)
  have f: "fold (\<lambda>(x, y) b. b[x := (b ! x)[y := v x y]]) (p # idxs) a
         = fold (\<lambda>(x, y) b. b[x := (b ! x)[y := v x y]]) idxs ?a1"
    using p by simp
  show ?case
  proof (intro conjI allI impI)
    show "shaped W H (fold (\<lambda>(x, y) b. b[x := (b ! x)[y := v x y]]) (p # idxs) a)"
      using IH f by simp
  next
    fix x y assume xy: "x < W" "y < H"
    have "fold (\<lambda>(x, y) b. b[x := (b ! x)[y := v x y]]) idxs ?a1 ! x ! y
          = (if (x, y) \<in> set idxs then v x y else ?a1 ! x ! y)"
      using IH xy by simp
    then show "fold (\<lambda>(x, y) b. b[x := (b ! x)[y := v x y]]) (p # idxs) a ! x ! y
          = (if (x, y) \<in> set (p # idxs) then v x y else a ! x ! y)"
      using f cell[OF xy] p by auto
  qed
qed

lemma fold_write_all:
  assumes "shaped W H a"
  shows "fold (\<lambda>(x, y) b. b[x := (b ! x)[y := v x y]]) (List.product [0..<W] [0..<H]) a
       = map (\<lambda>x. map (\<lambda>y. v x y) [0..<H]) [0..<W]"
proof -
  let ?r = "fold (\<lambda>(x, y) b. b[x := (b ! x)[y := v x y]]) (List.product [0..<W] [0..<H]) a"
  have idx: "\<forall>p\<in>set (List.product [0..<W] [0..<H]). fst p < W \<and> snd p < H"
    by auto
  have fw: "shaped W H ?r \<and>
     (\<forall>x<W. \<forall>y<H. ?r ! x ! y
         = (if (x, y) \<in> set (List.product [0..<W] [0..<H]) then v x y else a ! x ! y))"
    using fold_write[OF idx assms] .
  have lr: "length ?r = W" using fw by (simp add: shaped_def)
  have rows: "\<And>x. x < W \<Longrightarrow> length (?r ! x) = H" using fw by (simp add: shaped_def)
  have cells: "\<And>x y. x < W \<Longrightarrow> y < H \<Longrightarrow> ?r ! x ! y = v x y"
    using fw by simp
  show ?thesis
  proof (rule nth_equalityI)
    show "length ?r = length (map (\<lambda>x. map (\<lambda>y. v x y) [0..<H]) [0..<W])"
      using lr by simp
  next
    fix x assume "x < length ?r"
    then have x: "x < W" using lr by simp
    have "?r ! x = map (\<lambda>y. v x y) [0..<H]"
    proof (rule nth_equalityI)
      show "length (?r ! x) = length (map (\<lambda>y. v x y) [0..<H])" using rows[OF x] by simp
    next
      fix y assume "y < length (?r ! x)"
      then have y: "y < H" using rows[OF x] by simp
      show "?r ! x ! y = map (\<lambda>y. v x y) [0..<H] ! y" using cells[OF x y] y by simp
    qed
    then show "?r ! x = map (\<lambda>x. map (\<lambda>y. v x y) [0..<H]) [0..<W] ! x" using x by simp
  qed
qed

lemma offsets_range:
  "\<forall>d\<in>set offsets. (fst d = -1 \<or> fst d = 0 \<or> fst d = 1) \<and> (snd d = -1 \<or> snd d = 0 \<or> snd d = 1)"
  by (simp add: offsets_def)

lemma neighbors_alive_wrapping_total:
  assumes "shaped W H a" "x < W" "y < H"
  shows "\<exists>n. neighbors_alive_wrapping (int x) (int y) a = Inr n"
proof (cases "(0 < int x \<and> int x < int (shape0 a) - 1) \<and> (0 < int y \<and> int y < int (shape1 a) - 1)")
  case True
  have "getitem a (int x) (int y) = Inr (a ! x ! y)"
    using assms by (simp add: getitem_nat shaped_def)
  then show ?thesis using True by (simp add: neighbors_alive_wrapping_def)
next
  case False
  have "neighbors_alive_wrapping (int x) (int y) a = count_loop (int x) (int y) a offsets 0"
    unfolding neighbors_alive_wrapping_def by (rule if_not_P[OF False])
  then show ?thesis using count_loop_sum[OF assms offsets_range, of 0] by simp
qed

lemma call_alive_func_total:
  assumes "shaped W H a" "x < W" "y < H"
  shows "call_alive_func f (int x) (int y) a = Inr (alive_at f a x y)"
proof -
  have g: "getitem a (int x) (int y) = Inr (a ! x ! y)"
    using assms by (simp add: getitem_nat shaped_def)
  have "\<exists>b. call_alive_func f (int x) (int y) a = Inr b"
  proof (cases f)
    case Is_alive_wrapping
    obtain n where "neighbors_alive_wrapping (int x) (int y) a = Inr n"
      using neighbors_alive_wrapping_total[OF assms] by auto
    then show ?thesis using Is_alive_wrapping g by (simp add: is_alive_wrapping_def)
  next
    case Is_alive
    then show ?thesis using g by (simp add: is_alive_def neighbors_alive_def)
  qed
  then show ?thesis by (auto simp: alive_at_def)
qed

lemma nditer_loop_fold:
  assumes "cur \<noteq> p" "shaped W H c"
  shows "cur < length hp \<Longrightarrow> p < length hp \<Longrightarrow> hp ! cur = c \<Longrightarrow> shaped W H (hp ! p) \<Longrightarrow>
     \<forall>q\<in>set idxs. fst q < W \<and> snd q < H \<Longrightarrow>
     nditer_loop f cur p idxs hp =
       (Inr (), hp[p := fold (\<lambda>(x, y) b. b[x := (b ! x)[y := (if alive_at f c x y then 1 else 0)]])
                         idxs (hp ! p)])"
proof (induction idxs arbitrary: hp)
  case Nil
  then show ?case by simp
next
  case (Cons q idxs)
  obtain x y where q: "q = (x, y)" by (cases q)
  have xy: "x < W" "y < H" using Cons.prems(5) q by auto
  have rest: "\<forall>q\<in>set idxs. fst q < W \<and> snd q < H" using Cons.prems(5) by simp
  let ?v = "if alive_at f c x y then 1 else 0 :: int"
  let ?a1 = "(hp ! p)[x := (hp ! p ! x)[y := ?v]]"
  have al: "call_alive_func f (int x) (int y) (hp ! cur) = Inr (alive_at f c x y)"
    using call_alive_func_total[OF assms(2) xy] Cons.prems(3) by simp
  have lp: "x < length (hp ! p)" "y < length (hp ! p ! x)"
    using Cons.prems(4) xy by (simp_all add: shaped_def)
  have st: "setitem (hp ! p) (int x) (int y) ?v = Inr ?a1"
    using setitem_nat[OF lp] .
  let ?hp1 = "hp[p := ?a1]"
  have c1: "cur < length ?hp1" "p < length ?hp1" using Cons.prems(1,2) by simp_all
  have c2: "?hp1 ! cur = c" using assms(1) Cons.prems(3) by simp
  have c3: "?hp1 ! p = ?a1" using Cons.prems(2) by simp
  have c4: "shaped W H (?hp1 ! p)" using c3 shaped_update[OF Cons.prems(4)] by simp
  have IH: "nditer_loop f cur p idxs ?hp1 =
       (Inr (), ?hp1[p := fold (\<lambda>(x, y) b. b[x := (b ! x)[y := (if alive_at f c x y then 1 else 0)]])
                         idxs (?hp1 ! p)])"
    using Cons.IH[OF c1 c2 c4 rest] .
  have "nditer_loop f cur p (q # idxs) hp = nditer_loop f cur p idxs ?hp1"
    using q al st by simp
  then show ?case using IH c3 q by simp
qed

lemma get_next_state_eq:
  assumes "cur_state g < length hp" "shaped W H (hp ! cur_state g)" "0 < W" "0 < H"
  shows "get_next_state cs (hp, g) =
     (Inr (if cs then hp ! cur_state g = next_grid (alive_func g) (hp ! cur_state g) else False),
      hp @ [next_grid (alive_func g) (hp ! cur_state g)],
      g\<lparr>last_state := cur_state g, cur_state := length hp\<rparr>)"
proof -
  let ?c = "hp ! cur_state g"
  let ?z = "np_zeros (shape0 ?c) (shape1 ?c)"
  let ?hp1 = "hp @ [?z]"
  have s0: "shape0 ?c = W" using assms by (simp add: shaped_shape0)
  have s1: "shape1 ?c = H" using assms by (simp add: shaped_shape1)
  have z: "shaped W H ?z" using s0 s1 by (simp add: shaped_def np_zeros_def)
  have h1c: "?hp1 ! cur_state g = ?c" using assms(1) by (simp add: nth_append)
  have ne: "cur_state g \<noteq> length hp" using assms(1) by simp
  have idx: "\<forall>q\<in>set (List.product [0..<W] [0..<H]). fst q < W \<and> snd q < H" by auto
  have loop: "nditer_loop (alive_func g) (cur_state g) (length hp) (List.product [0..<W] [0..<H]) ?hp1
      = (Inr (), ?hp1[length hp := fold (\<lambda>(x, y) b. b[x := (b ! x)[y := (if alive_at (alive_func g) ?c x y then 1 else 0)]])
                         (List.product [0..<W] [0..<H]) (?hp1 ! length hp)])"
    using nditer_loop_fold[OF ne assms(2), of ?hp1 "List.product [0..<W] [0..<H]" "alive_func g"] assms(1) h1c z idx
    by simp
  have fw: "fold (\<lambda>(x, y) b. b[x := (b ! x)[y := (if alive_at (alive_func g) ?c x y then 1 else 0)]])
                         (List.product [0..<W] [0..<H]) ?z = next_grid (alive_func g) ?c"
    using fold_write_all[OF z, of "\<lambda>x y. if alive_at (alive_func g) ?c x y then 1 else 0"]
    by (simp add: next_grid_def s0 s1)
  have loop2: "nditer_loop (alive_func g) (cur_state g) (length hp) (List.product [0..<W] [0..<H]) ?hp1
      = (Inr (), hp @ [next_grid (alive_func g) ?c])"
    using loop fw by simp
  show ?thesis
    unfolding get_next_state_def
    using loop2 s0 s1 assms(1,3,4) h1c
    by (simp add: Let_def nth_append)
qed

section \<open>The engine invariant and the effect of a step\<close>

lemma shaped_next_grid:
  assumes "shaped W H c" "0 < W"
  shows "shaped W H (next_grid f c)"
proof -
  have "shape0 c = W" "shape1 c = H"
    using assms by (simp_all add: shaped_shape0 shaped_shape1)
  then show ?thesis by (simp add: shaped_def next_grid_def)
qed

lemma engine_state_init:
  assumes "initial_state < length hp" "shaped W H (hp ! initial_state)" "0 < W" "0 < H"
  shows "engine_state W H (GameOfLife_init initial_state wr hp)"
  using assms by (simp add: engine_state_def GameOfLife_init_def nth_append)

lemma get_next_state_engine:
  assumes "engine_state W H s"
  shows "get_next_state cs s =
     (Inr (if cs then cur_grid s = next_grid (alive_func (snd s)) (cur_grid s) else False),
      fst s @ [next_grid (alive_func (snd s)) (cur_grid s)],
      (snd s)\<lparr>last_state := cur_state (snd s), cur_state := length (fst s)\<rparr>)"
proof -
  obtain hp g where s: "s = (hp, g)" by (cases s)
  have "cur_state g < length hp" "shaped W H (hp ! cur_state g)" "0 < W" "0 < H"
    using assms s by (simp_all add: engine_state_def)
  from get_next_state_eq[OF this] show ?thesis using s by (simp add: cur_grid_def)
qed

lemma engine_state_step:
  assumes "engine_state W H s"
  shows "engine_state W H (snd (get_next_state cs s))"
proof -
  have c: "shaped W H (cur_grid s)" "0 < W" "cur_state (snd s) < length (fst s)"
    using assms by (simp_all add: engine_state_def cur_grid_def)
  have n: "shaped W H (next_grid (alive_func (snd s)) (cur_grid s))"
    using shaped_next_grid[OF c(1,2)] .
  show ?thesis
    unfolding get_next_state_engine[OF assms]
    using assms c n by (simp add: engine_state_def cur_grid_def nth_append)
qed

lemma step_cur_grid:
  assumes "engine_state W H s"
  shows "cur_grid (snd (get_next_state cs s)) = next_grid (alive_func (snd s)) (cur_grid s)"
    and "last_grid (snd (get_next_state cs s)) = cur_grid s"
    and "alive_func (snd (snd (get_next_state cs s))) = alive_func (snd s)"
    and "length (fst (snd (get_next_state cs s))) = Suc (length (fst s))"
  unfolding get_next_state_engine[OF assms]
  using assms by (simp_all add: engine_state_def cur_grid_def last_grid_def nth_append)

lemma steps_engine:
  "engine_state W H s \<Longrightarrow>
   engine_state W H (steps n s) \<and> length (fst (steps n s)) = length (fst s) + n"
proof (induction n arbitrary: s)
  case 0
  then show ?case by simp
next
  case (Suc n)
  have e: "engine_state W H (snd (get_next_state True s))"
    using engine_state_step[OF Suc.prems] .
  show ?case using Suc.IH[OF e] step_cur_grid(4)[OF Suc.prems, of True] by simp
qed

lemma run_loop_steps:
  "engine_state W H s \<Longrightarrow> run_loop n False out s = (Inr (), out, steps n s)"
proof (induction n arbitrary: s)
  case 0
  then show ?case by simp
next
  case (Suc n)
  have e: "engine_state W H (snd (get_next_state True s))"
    using engine_state_step[OF Suc.prems] .
  obtain b s1 where g: "get_next_state True s = (Inr b, s1)"
    using get_next_state_engine[OF Suc.prems, of True] by simp
  then have "run_loop (Suc n) False out s = run_loop n False out s1" by simp
  then show ?case using Suc.IH[of s1 ] e g by simp
qed

section \<open>Claims about a step and about \<open>run\<close>\<close>

text \<open>
  Claim C4. For every engine state, \<open>get_next_state\<close> with \<open>check_static = True\<close>
  returns, and what it returns is true exactly when the current generation before the
  step and the generation just computed are equal element by element; the previous
  generation after the step is the current generation before it.
\<close>

theorem step_static_iff_unchanged:
  assumes "engine_state W H s"
  shows "\<exists>b. fst (get_next_state True s) = Inr b
           \<and> (b \<longleftrightarrow> cur_grid s = cur_grid (snd (get_next_state True s)))
           \<and> last_grid (snd (get_next_state True s)) = cur_grid s"
proof -
  have r: "fst (get_next_state True s)
           = Inr (cur_grid s = next_grid (alive_func (snd s)) (cur_grid s))"
    using get_next_state_engine[OF assms, of True] by simp
  show ?thesis
    using r step_cur_grid(1,2)[OF assms, of True] by simp
qed

text \<open>
  Claim C10. \<open>get_next_state\<close> with \<open>check_static = False\<close> leaves the same heap and the
  same engine (the same new current and previous generation) as with
  \<open>check_static = True\<close>, and on an engine state it returns \<open>False\<close>, also when the new
  generation equals the one before it.
\<close>

theorem check_static_false_same_transition:
  "snd (get_next_state False s) = snd (get_next_state True s)
   \<and> (engine_state W H s \<longrightarrow> fst (get_next_state False s) = Inr False)"
proof
  show "snd (get_next_state False s) = snd (get_next_state True s)"
    by (simp add: get_next_state_def Let_def split: prod.splits sum.splits)
next
  show "engine_state W H s \<longrightarrow> fst (get_next_state False s) = Inr False"
  proof
    assume e: "engine_state W H s"
    show "fst (get_next_state False s) = Inr False"
      using get_next_state_engine[OF e, of False] by simp
  qed
qed

text \<open>
  Claim C7. For every \<open>n\<close> and every engine state, \<open>run(n)\<close> returns normally, prints
  nothing, and leaves exactly the state that \<open>n\<close> successive calls of
  \<open>get_next_state()\<close> leave. It calls \<open>get_next_state\<close> exactly \<open>n\<close> times, static or
  not: each call allocates one array, and the heap has grown by \<open>n\<close> arrays.
\<close>

theorem run_is_n_steps:
  assumes "engine_state W H s"
  shows "run (int n) False s = (Inr (), [], steps n s)
         \<and> length (fst (steps n s)) = length (fst s) + n"
  using run_loop_steps[OF assms, of n "[]"] steps_engine[OF assms, of n]
  by (simp add: run_def)

theorem step_static_iff_unchanged_witness:
  "engine_state 5 5 (GameOfLife_init 0 True [blinker_a])
   \<and> fst (get_next_state True (GameOfLife_init 0 True [blinker_a])) = Inr False
   \<and> cur_grid (GameOfLife_init 0 True [blinker_a])
       \<noteq> cur_grid (snd (get_next_state True (GameOfLife_init 0 True [blinker_a])))
   \<and> last_grid (snd (get_next_state True (GameOfLife_init 0 True [blinker_a])))
       = cur_grid (GameOfLife_init 0 True [blinker_a])"
proof -
  have h: "engine_state 5 5 (GameOfLife_init 0 True [blinker_a])"
    by code_simp
  have v: "fst (get_next_state True (GameOfLife_init 0 True [blinker_a])) = Inr False"
    by code_simp
  show ?thesis
    using h v step_static_iff_unchanged[OF h] by auto
qed

theorem check_static_false_same_transition_witness:
  "engine_state 4 4 (GameOfLife_init 0 False [[[0,0,0,0],[0,1,1,0],[0,1,1,0],[0,0,0,0]]])
   \<and> fst (get_next_state True (GameOfLife_init 0 False [[[0,0,0,0],[0,1,1,0],[0,1,1,0],[0,0,0,0]]]))
       = Inr True
   \<and> fst (get_next_state False (GameOfLife_init 0 False [[[0,0,0,0],[0,1,1,0],[0,1,1,0],[0,0,0,0]]]))
       = Inr False
   \<and> snd (get_next_state False (GameOfLife_init 0 False [[[0,0,0,0],[0,1,1,0],[0,1,1,0],[0,0,0,0]]]))
       = snd (get_next_state True (GameOfLife_init 0 False [[[0,0,0,0],[0,1,1,0],[0,1,1,0],[0,0,0,0]]]))"
proof -
  have h: "engine_state 4 4 (GameOfLife_init 0 False [[[0,0,0,0],[0,1,1,0],[0,1,1,0],[0,0,0,0]]])"
    by code_simp
  have v: "fst (get_next_state True (GameOfLife_init 0 False [[[0,0,0,0],[0,1,1,0],[0,1,1,0],[0,0,0,0]]]))
       = Inr True"
    by code_simp
  show ?thesis
    using h v
      check_static_false_same_transition
        [of "GameOfLife_init 0 False [[[0,0,0,0],[0,1,1,0],[0,1,1,0],[0,0,0,0]]]" 4 4]
    by simp
qed

theorem run_is_n_steps_witness:
  "engine_state 2 2 (GameOfLife_init 0 True [[[0,0],[0,0]]])
   \<and> fst (get_next_state True (GameOfLife_init 0 True [[[0,0],[0,0]]])) = Inr True
   \<and> run 2 False (GameOfLife_init 0 True [[[0,0],[0,0]]])
       = (Inr (), [], steps 2 (GameOfLife_init 0 True [[[0,0],[0,0]]]))
   \<and> length (fst (steps 2 (GameOfLife_init 0 True [[[0,0],[0,0]]])))
       = length (fst (GameOfLife_init 0 True [[[0,0],[0,0]]])) + 2"
proof -
  have h: "engine_state 2 2 (GameOfLife_init 0 True [[[0,0],[0,0]]])"
    by code_simp
  have v: "fst (get_next_state True (GameOfLife_init 0 True [[[0,0],[0,0]]])) = Inr True"
    by code_simp
  show ?thesis
    using h v run_is_n_steps[OF h, of 2] by simp
qed

section \<open>The blinker\<close>

lemma next_blinker_a: "next_grid Is_alive_wrapping blinker_a = blinker_b"
  by code_simp

lemma next_blinker_b: "next_grid Is_alive_wrapping blinker_b = blinker_a"
  by code_simp

lemma blinker_distinct: "blinker_a \<noteq> blinker_b"
  by code_simp

lemma steps_alive_func:
  "engine_state W H s \<Longrightarrow> alive_func (snd (steps n s)) = alive_func (snd s)"
proof (induction n arbitrary: s)
  case 0
  then show ?case by simp
next
  case (Suc n)
  have e: "engine_state W H (snd (get_next_state True s))"
    using engine_state_step[OF Suc.prems] .
  show ?case using Suc.IH[OF e] step_cur_grid(3)[OF Suc.prems, of True] by simp
qed

lemma blinker_steps:
  "engine_state 5 5 s \<Longrightarrow> alive_func (snd s) = Is_alive_wrapping \<Longrightarrow>
   (cur_grid s = blinker_a \<longrightarrow> cur_grid (steps n s) = (if even n then blinker_a else blinker_b)) \<and>
   (cur_grid s = blinker_b \<longrightarrow> cur_grid (steps n s) = (if even n then blinker_b else blinker_a))"
proof (induction n arbitrary: s)
  case 0
  then show ?case by simp
next
  case (Suc n)
  let ?s1 = "snd (get_next_state True s)"
  have e: "engine_state 5 5 ?s1"
    using engine_state_step[OF Suc.prems(1)] .
  have f: "alive_func (snd ?s1) = Is_alive_wrapping"
    using step_cur_grid(3)[OF Suc.prems(1), of True] Suc.prems(2) by simp
  have c: "cur_grid ?s1 = next_grid Is_alive_wrapping (cur_grid s)"
    using step_cur_grid(1)[OF Suc.prems(1), of True] Suc.prems(2) by simp
  note IH = Suc.IH[OF e f]
  show ?case
  proof (intro conjI impI)
    assume a: "cur_grid s = blinker_a"
    then have "cur_grid ?s1 = blinker_b" using c next_blinker_a by simp
    then show "cur_grid (steps (Suc n) s) = (if even (Suc n) then blinker_a else blinker_b)"
      using IH by simp
  next
    assume b: "cur_grid s = blinker_b"
    then have "cur_grid ?s1 = blinker_a" using c next_blinker_b by simp
    then show "cur_grid (steps (Suc n) s) = (if even (Suc n) then blinker_b else blinker_a)"
      using IH by simp
  qed
qed

text \<open>
  Claim C6. On a 5 by 5 engine with wrapping edges whose current generation is the
  horizontal blinker, ALIVE exactly at (1,2), (2,2), (3,2): after one step the ALIVE
  cells are exactly (2,1), (2,2), (2,3); after a second step the grid is the first one
  again; after \<open>n\<close> steps it is the first grid for even \<open>n\<close> and the second for odd \<open>n\<close>;
  and the step that follows returns \<open>False\<close> (not static), for every \<open>n\<close>.
\<close>

theorem blinker_oscillates:
  assumes "engine_state 5 5 s" "alive_func (snd s) = Is_alive_wrapping" "cur_grid s = blinker_a"
  shows "cur_grid (steps 1 s) = blinker_b
         \<and> cur_grid (steps 2 s) = blinker_a
         \<and> cur_grid (steps n s) = (if even n then blinker_a else blinker_b)
         \<and> fst (get_next_state True (steps n s)) = Inr False"
proof -
  have g: "\<And>k. cur_grid (steps k s) = (if even k then blinker_a else blinker_b)"
    using blinker_steps[OF assms(1,2)] assms(3) by simp
  have e: "engine_state 5 5 (steps n s)"
    using steps_engine[OF assms(1), of n] by simp
  have f: "alive_func (snd (steps n s)) = Is_alive_wrapping"
    using steps_alive_func[OF assms(1), of n] assms(2) by simp
  have r: "fst (get_next_state True (steps n s))
           = Inr (cur_grid (steps n s) = next_grid Is_alive_wrapping (cur_grid (steps n s)))"
    using get_next_state_engine[OF e, of True] f by simp
  have "cur_grid (steps n s) \<noteq> next_grid Is_alive_wrapping (cur_grid (steps n s))"
    using g[of n] next_blinker_a next_blinker_b blinker_distinct by (cases "even n") auto
  then have "fst (get_next_state True (steps n s)) = Inr False" using r by simp
  moreover have "cur_grid (steps 1 s) = blinker_b" using g[of 1] by simp
  moreover have "cur_grid (steps 2 s) = blinker_a" using g[of 2] by simp
  ultimately show ?thesis using g[of n] by simp
qed

theorem blinker_oscillates_witness:
  "engine_state 5 5 (GameOfLife_init 0 True [blinker_a])
   \<and> cur_grid (steps 1 (GameOfLife_init 0 True [blinker_a])) = blinker_b
   \<and> cur_grid (steps 2 (GameOfLife_init 0 True [blinker_a])) = blinker_a
   \<and> cur_grid (steps 7 (GameOfLife_init 0 True [blinker_a])) = blinker_b
   \<and> fst (get_next_state True (steps 7 (GameOfLife_init 0 True [blinker_a]))) = Inr False"
proof -
  have h1: "engine_state 5 5 (GameOfLife_init 0 True [blinker_a])"
    by code_simp
  have h2: "alive_func (snd (GameOfLife_init 0 True [blinker_a])) = Is_alive_wrapping"
    by code_simp
  have h3: "cur_grid (GameOfLife_init 0 True [blinker_a]) = blinker_a"
    by code_simp
  show ?thesis
    using h1 blinker_oscillates[OF h1 h2 h3, of 7] by simp
qed

section \<open>The all-DEAD grid and \<open>clear\<close>\<close>

lemma sum_list_zeros: "\<forall>c\<in>set xs. c = (0::int) \<Longrightarrow> sum_list xs = 0"
  by (induction xs) simp_all

lemma set_py_slice: "set (py_slice xs lo hi) \<subseteq> set xs"
  unfolding py_slice_def
  by (meson set_drop_subset set_take_subset subset_trans)

lemma np_sum_window_zeros:
  assumes "\<forall>r\<in>set a. \<forall>c\<in>set r. c = 0"
  shows "np_sum (window a x y) = 0"
proof -
  have "\<forall>s\<in>set (map sum_list (window a x y)). s = 0"
  proof
    fix s assume "s \<in> set (map sum_list (window a x y))"
    then obtain r where r: "r \<in> set (py_slice a (x - 1) (x + 2))"
      and s: "s = sum_list (py_slice r (y - 1) (y + 2))"
      by (auto simp: window_def)
    have "r \<in> set a" using r set_py_slice by (meson subsetD)
    then have "\<forall>c\<in>set r. c = 0" using assms by simp
    then have "\<forall>c\<in>set (py_slice r (y - 1) (y + 2)). c = 0"
      using set_py_slice by (meson subsetD)
    then show "s = 0" using s sum_list_zeros by simp
  qed
  then show ?thesis unfolding np_sum_def by (rule sum_list_zeros)
qed

lemma wrapped_lt: "0 < W \<Longrightarrow> nat (k mod int W) < W"
  by (simp add: nat_less_iff)

lemma np_zeros_shaped: "shaped W H (np_zeros W H)"
  by (simp add: shaped_def np_zeros_def)

lemma np_zeros_nth: "x < W \<Longrightarrow> y < H \<Longrightarrow> np_zeros W H ! x ! y = 0"
  by (simp add: np_zeros_def)

lemma np_zeros_cells: "\<forall>r\<in>set (np_zeros W H). \<forall>c\<in>set r. c = 0"
  by (auto simp: np_zeros_def)

lemma alive_at_zeros:
  assumes "x < W" "y < H"
  shows "alive_at f (np_zeros W H) x y = False"
proof -
  let ?z = "np_zeros W H"
  have sh: "shaped W H ?z" by (rule np_zeros_shaped)
  have g: "getitem ?z (int x) (int y) = Inr 0"
    using assms getitem_nat[of x ?z y] sh np_zeros_nth[OF assms]
    by (simp add: shaped_def)
  have win: "np_sum (window ?z (int x) (int y)) = 0"
    using np_sum_window_zeros[OF np_zeros_cells] .
  have "call_alive_func f (int x) (int y) ?z = Inr False"
  proof (cases f)
    case Is_alive
    then show ?thesis using g win by (simp add: is_alive_def neighbors_alive_def)
  next
    case Is_alive_wrapping
    have "neighbors_alive_wrapping (int x) (int y) ?z = Inr 0"
    proof (cases "(0 < int x \<and> int x < int (shape0 ?z) - 1) \<and> (0 < int y \<and> int y < int (shape1 ?z) - 1)")
      case True
      then show ?thesis using g win by (simp add: neighbors_alive_wrapping_def)
    next
      case False
      have eq: "neighbors_alive_wrapping (int x) (int y) ?z = count_loop (int x) (int y) ?z offsets 0"
        unfolding neighbors_alive_wrapping_def by (rule if_not_P[OF False])
      have W: "0 < W" "0 < H" using assms by simp_all
      have "\<forall>c\<in>set (map (\<lambda>(i, j).
                if ?z ! nat ((int x + i) mod int W) ! nat ((int y + j) mod int H) = 1 then 1 else 0 :: int)
              (filter (\<lambda>d. d \<noteq> (0, 0)) offsets)). c = 0"
        using np_zeros_nth[OF wrapped_lt[OF W(1)] wrapped_lt[OF W(2)]] by auto
      then have "sum_list (map (\<lambda>(i, j).
                if ?z ! nat ((int x + i) mod int W) ! nat ((int y + j) mod int H) = 1 then 1 else 0 :: int)
              (filter (\<lambda>d. d \<noteq> (0, 0)) offsets)) = 0"
        by (rule sum_list_zeros)
      then show ?thesis
        using eq count_loop_sum[OF sh assms offsets_range, of 0] by simp
    qed
    then show ?thesis using Is_alive_wrapping g by (simp add: is_alive_wrapping_def)
  qed
  then show ?thesis by (simp add: alive_at_def)
qed

lemma next_grid_zeros:
  assumes "0 < W" "0 < H"
  shows "next_grid f (np_zeros W H) = np_zeros W H"
proof -
  let ?z = "np_zeros W H"
  have s: "shape0 ?z = W" "shape1 ?z = H"
    using shaped_shape0[OF np_zeros_shaped] shaped_shape1[OF np_zeros_shaped assms(1)] by simp_all
  have row: "\<And>x. x < W \<Longrightarrow>
      map (\<lambda>y. if alive_at f ?z x y then 1 else 0 :: int) [0..<H] = replicate H 0"
  proof -
    fix x assume x: "x < W"
    have "map (\<lambda>y. if alive_at f ?z x y then 1 else 0 :: int) [0..<H] = map (\<lambda>y. 0) [0..<H]"
      by (rule map_cong) (simp_all add: alive_at_zeros[OF x])
    then show "map (\<lambda>y. if alive_at f ?z x y then 1 else 0 :: int) [0..<H] = replicate H 0"
      by (simp add: map_replicate_const)
  qed
  have "map (\<lambda>x. map (\<lambda>y. if alive_at f ?z x y then 1 else 0 :: int) [0..<H]) [0..<W]
        = map (\<lambda>x. replicate H 0) [0..<W]"
    by (rule map_cong) (simp_all add: row)
  then show ?thesis
    unfolding next_grid_def s by (simp add: map_replicate_const np_zeros_def)
qed

lemma clear_loop_fold:
  "a < length hp \<Longrightarrow> shaped W H (hp ! a) \<Longrightarrow> \<forall>q\<in>set idxs. fst q < W \<and> snd q < H \<Longrightarrow>
   clear_loop a idxs hp =
     (Inr (), hp[a := fold (\<lambda>(x, y) b. b[x := (b ! x)[y := 0]]) idxs (hp ! a)])"
proof (induction idxs arbitrary: hp)
  case Nil
  then show ?case by simp
next
  case (Cons q idxs)
  obtain x y where q: "q = (x, y)" by (cases q)
  have xy: "x < W" "y < H" using Cons.prems(3) q by auto
  have rest: "\<forall>q\<in>set idxs. fst q < W \<and> snd q < H" using Cons.prems(3) by simp
  let ?a1 = "(hp ! a)[x := (hp ! a ! x)[y := 0]]"
  have lp: "x < length (hp ! a)" "y < length (hp ! a ! x)"
    using Cons.prems(2) xy by (simp_all add: shaped_def)
  have st: "setitem (hp ! a) (int x) (int y) 0 = Inr ?a1"
    using setitem_nat[OF lp] .
  let ?hp1 = "hp[a := ?a1]"
  have c1: "a < length ?hp1" using Cons.prems(1) by simp
  have c3: "?hp1 ! a = ?a1" using Cons.prems(1) by simp
  have c4: "shaped W H (?hp1 ! a)" using c3 shaped_update[OF Cons.prems(2)] by simp
  have IH: "clear_loop a idxs ?hp1 =
     (Inr (), ?hp1[a := fold (\<lambda>(x, y) b. b[x := (b ! x)[y := 0]]) idxs (?hp1 ! a)])"
    using Cons.IH[OF c1 c4 rest] .
  have "clear_loop a (q # idxs) hp = clear_loop a idxs ?hp1"
    using q st by simp
  then show ?case using IH c3 q by simp
qed

lemma clear_canvas_loop_frame:
  "gol (snd (clear_canvas_loop idxs cv)) = gol cv \<and>
   cv_w (snd (clear_canvas_loop idxs cv)) = cv_w cv \<and>
   cv_h (snd (clear_canvas_loop idxs cv)) = cv_h cv"
proof (induction idxs arbitrary: cv)
  case Nil
  then show ?case by simp
next
  case (Cons q idxs)
  obtain x y where q: "q = (x, y)" by (cases q)
  show ?case
    unfolding q
    by (simp add: Cons.IH Let_def split: sum.splits)
qed

lemma clear_canvas_loop_ok:
  "shaped W H (cells cv) \<Longrightarrow> \<forall>q\<in>set idxs. fst q < W \<and> snd q < H \<Longrightarrow>
   fst (clear_canvas_loop idxs cv) = Inr () \<and> shaped W H (cells (snd (clear_canvas_loop idxs cv)))"
proof (induction idxs arbitrary: cv)
  case Nil
  then show ?case by simp
next
  case (Cons q idxs)
  obtain x y where q: "q = (x, y)" by (cases q)
  have xy: "x < W" "y < H" using Cons.prems(2) q by auto
  have rest: "\<forall>q\<in>set idxs. fst q < W \<and> snd q < H" using Cons.prems(2) by simp
  have lp: "x < length (cells cv)" "y < length (cells cv ! x)"
    using Cons.prems(1) xy by (simp_all add: shaped_def)
  have g: "getitem (cells cv) (int x) (int y) = Inr (cells cv ! x ! y)"
    using getitem_nat[OF lp] .
  have st: "\<And>v. setitem (cells cv) (int x) (int y) v = Inr ((cells cv)[x := (cells cv ! x)[y := v]])"
    using setitem_nat[OF lp] .
  show ?case
  proof (cases "truthy (cells cv ! x ! y)")
    case True
    let ?cv1 = "cv\<lparr>canvas := delete_item (canvas cv) (cells cv ! x ! y),
                   cells := (cells cv)[x := (cells cv ! x)[y := None]]\<rparr>"
    have s1: "shaped W H (cells ?cv1)" using shaped_update[OF Cons.prems(1)] by simp
    have "clear_canvas_loop (q # idxs) cv = clear_canvas_loop idxs ?cv1"
      using q g st True by (simp add: Let_def)
    then show ?thesis using Cons.IH[OF s1 rest] by simp
  next
    case False
    then have "clear_canvas_loop (q # idxs) cv = clear_canvas_loop idxs cv"
      using q g by simp
    then show ?thesis using Cons.IH[OF Cons.prems(1) rest] by simp
  qed
qed

lemma clear_eq:
  assumes "canvas_state W H s"
  shows "fst (clear s) = Inr ()"
    and "fst (snd (clear s)) = (fst s)[cur_state (gol (snd s)) := np_zeros W H]"
    and "gol (snd (snd (clear s))) = gol (snd s)"
    and "cv_w (snd (snd (clear s))) = W"
    and "cv_h (snd (snd (clear s))) = H"
    and "shaped W H (cells (snd (snd (clear s))))"
proof -
  obtain hp cv where s: "s = (hp, cv)" by (cases s)
  have wh: "cv_w cv = W" "cv_h cv = H" and sc: "shaped W H (cells cv)"
    and cur: "cur_state (gol cv) < length hp" and scur: "shaped W H (hp ! cur_state (gol cv))"
    using assms s by (simp_all add: canvas_state_def engine_state_def)
  have idx: "\<forall>q\<in>set (List.product [0..<W] [0..<H]). fst q < W \<and> snd q < H" by auto
  let ?r = "clear_canvas_loop (List.product [0..<W] [0..<H]) cv"
  have cc: "fst ?r = Inr ()" "shaped W H (cells (snd ?r))"
    using clear_canvas_loop_ok[OF sc idx] by simp_all
  have fr: "gol (snd ?r) = gol cv" "cv_w (snd ?r) = W" "cv_h (snd ?r) = H"
    using clear_canvas_loop_frame[of "List.product [0..<W] [0..<H]" cv] wh by simp_all
  have cceq: "clear_canvas cv = (Inr (), snd ?r)"
    using cc(1) wh by (simp add: clear_canvas_def prod_eq_iff)
  have fw: "fold (\<lambda>(x, y) b. b[x := (b ! x)[y := 0]]) (List.product [0..<W] [0..<H])
              (hp ! cur_state (gol cv)) = np_zeros W H"
    using fold_write_all[OF scur, of "\<lambda>x y. 0"]
    by (simp add: np_zeros_def map_replicate_const)
  have cl: "clear_loop (cur_state (gol cv)) (List.product [0..<W] [0..<H]) hp
            = (Inr (), hp[cur_state (gol cv) := np_zeros W H])"
    using clear_loop_fold[OF cur scur idx] fw by simp
  have c: "clear s = (Inr (), hp[cur_state (gol cv) := np_zeros W H], snd ?r)"
    using s cceq cl fr by (simp add: clear_def)
  show "fst (clear s) = Inr ()" using c by simp
  show "fst (snd (clear s)) = (fst s)[cur_state (gol (snd s)) := np_zeros W H]" using c s by simp
  show "gol (snd (snd (clear s))) = gol (snd s)" using c s fr by simp
  show "cv_w (snd (snd (clear s))) = W" using c fr by simp
  show "cv_h (snd (snd (clear s))) = H" using c fr by simp
  show "shaped W H (cells (snd (snd (clear s))))" using c cc by simp
qed

lemma canvas_state_clear:
  assumes "canvas_state W H s"
  shows "canvas_state W H (snd (clear s))"
  using assms clear_eq[OF assms] np_zeros_shaped[of W H]
  by (simp add: canvas_state_def engine_state_def nth_list_update)

section \<open>The effect of \<open>toggle_cell\<close>\<close>

lemma py_index_lt: "py_index n k = Inr i \<Longrightarrow> i < n"
  by (auto simp: py_index_def split: if_splits)

lemma py_index_error:
  "int n \<le> k \<or> k < - int n \<Longrightarrow> py_index n k = Inl IndexError"
  by (auto simp: py_index_def)

lemma py_index_ok:
  "- int n \<le> k \<Longrightarrow> k < int n \<Longrightarrow> \<exists>i. py_index n k = Inr i"
  by (auto simp: py_index_def)

lemma getitem_idx:
  assumes "shaped W H a" "py_index W x = Inr i" "py_index H y = Inr j"
  shows "getitem a x y = Inr (a ! i ! j)"
proof -
  have "length a = W" "length (a ! i) = H"
    using assms(1) py_index_lt[OF assms(2)] by (simp_all add: shaped_def)
  then show ?thesis using assms(2,3) by (simp add: getitem_def)
qed

lemma setitem_idx:
  assumes "shaped W H a" "py_index W x = Inr i" "py_index H y = Inr j"
  shows "setitem a x y v = Inr (a[i := (a ! i)[j := v]])"
proof -
  have "length a = W" "length (a ! i) = H"
    using assms(1) py_index_lt[OF assms(2)] by (simp_all add: shaped_def)
  then show ?thesis using assms(2,3) by (simp add: setitem_def)
qed

lemma getitem_error:
  assumes "shaped W H a" "int W \<le> x \<or> x < - int W \<or> int H \<le> y \<or> y < - int H"
  shows "getitem a x y = Inl IndexError"
proof (cases "int W \<le> x \<or> x < - int W")
  case True
  have "length a = W" using assms(1) by (simp add: shaped_def)
  then show ?thesis using py_index_error[OF True] by (simp add: getitem_def)
next
  case False
  then have y: "int H \<le> y \<or> y < - int H" using assms(2) by auto
  obtain i where i: "py_index W x = Inr i" using py_index_ok[of W x] False by auto
  have "length a = W" "length (a ! i) = H"
    using assms(1) py_index_lt[OF i] by (simp_all add: shaped_def)
  then show ?thesis using i py_index_error[OF y] by (simp add: getitem_def)
qed

lemma toggle_cell_error:
  assumes "canvas_state W H s"
    "int W \<le> fst e div cw \<or> fst e div cw < - int W \<or> int H \<le> snd e div ch \<or> snd e div ch < - int H"
  shows "toggle_cell e s = (Inl IndexError, s)"
proof -
  obtain hp cv where s: "s = (hp, cv)" by (cases s)
  have "shaped W H (cells cv)" using assms(1) s by (simp add: canvas_state_def)
  from getitem_error[OF this assms(2)] show ?thesis
    using s by (simp add: toggle_cell_def Let_def)
qed

lemma toggle_cell_ok:
  assumes "canvas_state W H s" "py_index W (fst e div cw) = Inr i" "py_index H (snd e div ch) = Inr j"
  shows "fst (toggle_cell e s) = Inr ()"
    and "fst (snd (toggle_cell e s)) =
           (fst s)[cur_state (gol (snd s)) :=
              (fst s ! cur_state (gol (snd s)))[i := (fst s ! cur_state (gol (snd s)) ! i)
                 [j := (if truthy (cells (snd s) ! i ! j) then 0 else 1)]]]"
    and "gol (snd (snd (toggle_cell e s))) = gol (snd s)"
    and "cv_w (snd (snd (toggle_cell e s))) = W"
    and "cv_h (snd (snd (toggle_cell e s))) = H"
    and "shaped W H (cells (snd (snd (toggle_cell e s))))"
proof -
  obtain hp cv where s: "s = (hp, cv)" by (cases s)
  have wh: "cv_w cv = W" "cv_h cv = H" and sc: "shaped W H (cells cv)"
    and scur: "shaped W H (hp ! cur_state (gol cv))"
    using assms(1) s by (simp_all add: canvas_state_def engine_state_def)
  have g: "getitem (cells cv) (fst e div cw) (snd e div ch) = Inr (cells cv ! i ! j)"
    using getitem_idx[OF sc assms(2,3)] .
  have sg: "\<And>v. setitem (hp ! cur_state (gol cv)) (fst e div cw) (snd e div ch) v
        = Inr ((hp ! cur_state (gol cv))[i := (hp ! cur_state (gol cv) ! i)[j := v]])"
    using setitem_idx[OF scur assms(2,3)] .
  have sl: "\<And>v. setitem (cells cv) (fst e div cw) (snd e div ch) v
        = Inr ((cells cv)[i := (cells cv ! i)[j := v]])"
    using setitem_idx[OF sc assms(2,3)] .
  have su: "\<And>v. shaped W H ((cells cv)[i := (cells cv ! i)[j := v]])"
    using shaped_update[OF sc] .
  show "fst (toggle_cell e s) = Inr ()"
    using s g sg sl by (simp add: toggle_cell_def Let_def split: prod.splits)
  show "fst (snd (toggle_cell e s)) =
           (fst s)[cur_state (gol (snd s)) :=
              (fst s ! cur_state (gol (snd s)))[i := (fst s ! cur_state (gol (snd s)) ! i)
                 [j := (if truthy (cells (snd s) ! i ! j) then 0 else 1)]]]"
    using s g sg sl by (simp add: toggle_cell_def Let_def split: prod.splits)
  show "gol (snd (snd (toggle_cell e s))) = gol (snd s)"
    using s g sg sl by (simp add: toggle_cell_def Let_def split: prod.splits)
  show "cv_w (snd (snd (toggle_cell e s))) = W"
    using s g sg sl wh by (simp add: toggle_cell_def Let_def split: prod.splits)
  show "cv_h (snd (snd (toggle_cell e s))) = H"
    using s g sg sl wh by (simp add: toggle_cell_def Let_def split: prod.splits)
  show "shaped W H (cells (snd (snd (toggle_cell e s))))"
    using s g sg sl su by (simp add: toggle_cell_def Let_def split: prod.splits)
qed

lemma canvas_state_toggle:
  assumes "canvas_state W H s"
  shows "canvas_state W H (snd (toggle_cell e s))"
proof (cases "int W \<le> fst e div cw \<or> fst e div cw < - int W \<or> int H \<le> snd e div ch \<or> snd e div ch < - int H")
  case True
  then show ?thesis using toggle_cell_error[OF assms True] assms by simp
next
  case False
  obtain i where i: "py_index W (fst e div cw) = Inr i"
    using py_index_ok[of W "fst e div cw"] False by auto
  obtain j where j: "py_index H (snd e div ch) = Inr j"
    using py_index_ok[of H "snd e div ch"] False by auto
  have sh: "shaped W H (fst s ! cur_state (gol (snd s)))"
    using assms by (simp add: canvas_state_def engine_state_def)
  show ?thesis
    using assms toggle_cell_ok[OF assms i j] shaped_update[OF sh]
    by (simp add: canvas_state_def engine_state_def nth_list_update)
qed

section \<open>Claims about \<open>toggle_cell\<close> and \<open>clear\<close>\<close>

lemma canvas_state_init:
  assumes "0 < W" "0 < H"
  shows "canvas_state W H (GOLCanvasCells_init W H hp)"
proof -
  have z: "shaped W H (np_zeros W H)" by (rule np_zeros_shaped)
  have e: "engine_state W H (GameOfLife_init (length hp) True (hp @ [np_zeros W H]))"
    by (rule engine_state_init) (simp_all add: z assms)
  show ?thesis
    using e by (simp add: canvas_state_def GOLCanvasCells_init_def shaped_def case_prod_beta)
qed

lemma canvas_state_step:
  assumes "canvas_state W H s"
  shows "canvas_state W H (apply_op (Step cs) s)"
proof -
  have e: "engine_state W H (fst s, gol (snd s))"
    using assms by (simp add: canvas_state_def)
  have "engine_state W H (snd (get_next_state cs (fst s, gol (snd s))))"
    using engine_state_step[OF e] .
  then show ?thesis
    using assms by (simp add: canvas_state_def case_prod_beta)
qed

text \<open>
  Claim C1, as the code has it. \<open>clear()\<close> followed at once by \<open>get_next_state()\<close>
  returns \<open>True\<close> (static) on every canvas state: the step first makes the previous
  generation the array that was just cleared, and the all-DEAD grid is a fixed point of
  both transition functions. What the previous generation held before \<open>clear()\<close> is never
  compared.
\<close>

theorem clear_then_step_static:
  assumes "canvas_state W H s"
  shows "fst (clear s) = Inr ()
         \<and> fst (get_next_state True (engine_of (snd (clear s)))) = Inr True"
proof -
  let ?t = "engine_of (snd (clear s))"
  have e: "engine_state W H ?t"
    using canvas_state_clear[OF assms] by (simp add: canvas_state_def engine_of_def)
  have pos: "0 < W" "0 < H" and cur: "cur_state (gol (snd s)) < length (fst s)"
    using assms by (simp_all add: canvas_state_def engine_state_def)
  have c: "cur_grid ?t = np_zeros W H"
    using clear_eq(2,3)[OF assms] cur by (simp add: cur_grid_def engine_of_def)
  have "fst (get_next_state True ?t)
        = Inr (cur_grid ?t = next_grid (alive_func (snd ?t)) (cur_grid ?t))"
    using get_next_state_engine[OF e, of True] by simp
  then have "fst (get_next_state True ?t) = Inr True"
    using c next_grid_zeros[OF pos] by simp
  then show ?thesis using clear_eq(1)[OF assms] by simp
qed

theorem clear_then_step_static_witness:
  "canvas_state 4 4 block_canvas
   \<and> fst (clear block_canvas) = Inr ()
   \<and> fst (get_next_state True (engine_of (snd (clear block_canvas)))) = Inr True"
proof -
  have h: "canvas_state 4 4 block_canvas"
    by code_simp
  show ?thesis
    using h clear_then_step_static[OF h] by simp
qed

text \<open>
  Claim C1 as stated (the step after \<open>clear()\<close> returns \<open>False\<close> whenever the current
  generation had an ALIVE cell) fails on the block canvas, whose current and previous
  generation both hold the block.
\<close>

theorem clear_then_step_reports_static:
  "cur_grid (engine_of block_canvas) ! 1 ! 1 = 1
   \<and> last_grid (engine_of block_canvas) ! 1 ! 1 = 1
   \<and> fst (get_next_state True (engine_of (snd (clear block_canvas)))) = Inr True
   \<and> fst (get_next_state True (engine_of (snd (clear block_canvas)))) \<noteq> Inr False"
proof -
  have a: "cur_grid (engine_of block_canvas) ! 1 ! 1 = 1"
    by code_simp
  have b: "last_grid (engine_of block_canvas) ! 1 ! 1 = 1"
    by code_simp
  have c: "fst (get_next_state True (engine_of (snd (clear block_canvas)))) = Inr True"
    by code_simp
  from a b c show ?thesis by simp
qed

text \<open>
  Claim C9. On every canvas state and for every in-bounds cell \<open>(x, y)\<close>, a click in that
  cell returns normally, changes the current generation in that one cell only (to \<open>0\<close>
  if the cell has a rectangle, to \<open>1\<close> if not) and leaves the previous generation as it
  was; \<open>clear()\<close> returns normally, makes the current generation all DEAD and leaves the
  previous generation as it was.
\<close>

theorem toggle_and_clear_keep_previous:
  assumes "canvas_state W H s" "x < W" "y < H" "fst e div cw = int x" "snd e div ch = int y"
  shows "fst (toggle_cell e s) = Inr ()
       \<and> cur_grid (engine_of (snd (toggle_cell e s)))
           = (cur_grid (engine_of s))[x := (cur_grid (engine_of s) ! x)
                [y := (if truthy (cells (snd s) ! x ! y) then 0 else 1)]]
       \<and> last_grid (engine_of (snd (toggle_cell e s))) = last_grid (engine_of s)
       \<and> fst (clear s) = Inr ()
       \<and> cur_grid (engine_of (snd (clear s))) = np_zeros W H
       \<and> last_grid (engine_of (snd (clear s))) = last_grid (engine_of s)"
proof -
  have inv: "cur_state (gol (snd s)) < length (fst s)"
    "last_state (gol (snd s)) \<noteq> cur_state (gol (snd s))"
    using assms(1) by (simp_all add: canvas_state_def engine_state_def)
  have i: "py_index W (fst e div cw) = Inr x" using assms(2,4) by (simp add: py_index_nat)
  have j: "py_index H (snd e div ch) = Inr y" using assms(3,5) by (simp add: py_index_nat)
  note t = toggle_cell_ok[OF assms(1) i j]
  note c = clear_eq[OF assms(1)]
  have t1: "fst (toggle_cell e s) = Inr ()" using t(1) .
  have t2: "cur_grid (engine_of (snd (toggle_cell e s)))
           = (cur_grid (engine_of s))[x := (cur_grid (engine_of s) ! x)
                [y := (if truthy (cells (snd s) ! x ! y) then 0 else 1)]]"
    using t(2,3) inv(1) by (simp add: cur_grid_def engine_of_def)
  have t3: "last_grid (engine_of (snd (toggle_cell e s))) = last_grid (engine_of s)"
    using t(2,3) inv(2) by (simp add: last_grid_def engine_of_def)
  have c1: "fst (clear s) = Inr ()" using c(1) .
  have c2: "cur_grid (engine_of (snd (clear s))) = np_zeros W H"
    using c(2,3) inv(1) by (simp add: cur_grid_def engine_of_def)
  have c3: "last_grid (engine_of (snd (clear s))) = last_grid (engine_of s)"
    using c(2,3) inv(2) by (simp add: last_grid_def engine_of_def)
  from t1 t2 t3 c1 c2 c3 show ?thesis by simp
qed

theorem toggle_and_clear_keep_previous_witness:
  "canvas_state 4 4 block_canvas
   \<and> fst (toggle_cell (15, 30) block_canvas) = Inr ()
   \<and> cur_grid (engine_of (snd (toggle_cell (15, 30) block_canvas)))
       = [[0,0,0,0],[0,1,0,0],[0,1,1,0],[0,0,0,0]]
   \<and> last_grid (engine_of (snd (toggle_cell (15, 30) block_canvas)))
       = [[0,0,0,0],[0,1,1,0],[0,1,1,0],[0,0,0,0]]
   \<and> fst (clear block_canvas) = Inr ()
   \<and> cur_grid (engine_of (snd (clear block_canvas))) = np_zeros 4 4
   \<and> last_grid (engine_of (snd (clear block_canvas)))
       = [[0,0,0,0],[0,1,1,0],[0,1,1,0],[0,0,0,0]]"
proof -
  have h: "canvas_state 4 4 block_canvas"
    by code_simp
  have x: "fst (15, 30) div cw = int 1" "snd (15, 30) div ch = int 2"
    by (simp_all add: cw_def ch_def)
  have c: "cur_grid (engine_of block_canvas) = [[0,0,0,0],[0,1,1,0],[0,1,1,0],[0,0,0,0]]"
    by code_simp
  have l: "last_grid (engine_of block_canvas) = [[0,0,0,0],[0,1,1,0],[0,1,1,0],[0,0,0,0]]"
    by code_simp
  have t: "truthy (cells (snd block_canvas) ! 1 ! 2)"
    by code_simp
  show ?thesis
    using h c l t toggle_and_clear_keep_previous[OF h _ _ x]
    by simp
qed

text \<open>
  Claim C5, as the code has it. With the cell coordinates \<open>x = event.x // cw\<close> and
  \<open>y = event.y // ch\<close>: when \<open>x \<ge> W\<close>, \<open>x < -W\<close>, \<open>y \<ge> H\<close> or \<open>y < -H\<close>, \<open>toggle_cell\<close>
  raises \<open>IndexError\<close> and heap, engine and canvas are unchanged; in every other case,
  negative coordinates down to \<open>-W\<close> and \<open>-H\<close> included, it returns normally.
\<close>

theorem toggle_cell_index_errors:
  assumes "canvas_state W H s"
  shows "(int W \<le> fst e div cw \<or> fst e div cw < - int W \<or>
          int H \<le> snd e div ch \<or> snd e div ch < - int H
            \<longrightarrow> toggle_cell e s = (Inl IndexError, s))
       \<and> (- int W \<le> fst e' div cw \<and> fst e' div cw < int W \<and>
          - int H \<le> snd e' div ch \<and> snd e' div ch < int H
            \<longrightarrow> fst (toggle_cell e' s) = Inr ())"
proof (intro conjI impI)
  assume "int W \<le> fst e div cw \<or> fst e div cw < - int W \<or>
          int H \<le> snd e div ch \<or> snd e div ch < - int H"
  then show "toggle_cell e s = (Inl IndexError, s)"
    using toggle_cell_error[OF assms] by simp
next
  assume a: "- int W \<le> fst e' div cw \<and> fst e' div cw < int W \<and>
          - int H \<le> snd e' div ch \<and> snd e' div ch < int H"
  obtain i where i: "py_index W (fst e' div cw) = Inr i"
    using py_index_ok[of W "fst e' div cw"] a by auto
  obtain j where j: "py_index H (snd e' div ch) = Inr j"
    using py_index_ok[of H "snd e' div ch"] a by auto
  show "fst (toggle_cell e' s) = Inr ()"
    using toggle_cell_ok(1)[OF assms i j] .
qed

theorem toggle_cell_index_errors_witness:
  "canvas_state 2 2 (GOLCanvasCells_init 2 2 [])
   \<and> toggle_cell (30, 0) (GOLCanvasCells_init 2 2 [])
       = (Inl IndexError, GOLCanvasCells_init 2 2 [])
   \<and> toggle_cell (0, -31) (GOLCanvasCells_init 2 2 [])
       = (Inl IndexError, GOLCanvasCells_init 2 2 [])
   \<and> fst (toggle_cell (-1, 0) (GOLCanvasCells_init 2 2 [])) = Inr ()"
proof -
  have h: "canvas_state 2 2 (GOLCanvasCells_init 2 2 [])"
    by code_simp
  show ?thesis
    using h
      toggle_cell_index_errors[OF h, of "(30, 0)" "(-1, 0)"]
      toggle_cell_index_errors[OF h, of "(0, -31)" "(-1, 0)"]
    by (simp add: cw_def ch_def)
qed

text \<open>
  Claim C5 as stated (every out-of-range coordinate is rejected, a negative one is never
  mapped to the opposite edge) fails at the pixel \<open>(-1, 0)\<close> of a 2 by 2 canvas: the cell
  coordinate is \<open>x = -1\<close>, the call returns normally and sets cell (1,0).
\<close>

theorem toggle_cell_negative_wraps:
  "fst (toggle_cell (-1, 0) (GOLCanvasCells_init 2 2 [])) = Inr ()
   \<and> cur_grid (engine_of (GOLCanvasCells_init 2 2 [])) = [[0,0],[0,0]]
   \<and> cur_grid (engine_of (snd (toggle_cell (-1, 0) (GOLCanvasCells_init 2 2 [])))) = [[0,0],[1,0]]"
proof -
  have a: "fst (toggle_cell (-1, 0) (GOLCanvasCells_init 2 2 [])) = Inr ()"
    by code_simp
  have b: "cur_grid (engine_of (GOLCanvasCells_init 2 2 [])) = [[0,0],[0,0]]"
    by code_simp
  have c: "cur_grid (engine_of (snd (toggle_cell (-1, 0) (GOLCanvasCells_init 2 2 [])))) = [[0,0],[1,0]]"
    by code_simp
  from a b c show ?thesis by simp
qed

section \<open>Cells stay binary and shapes stay equal\<close>

lemma binary_next_grid: "binary (next_grid f c)"
  by (auto simp: binary_def next_grid_def)

lemma grids_ok_step:
  assumes "grids_ok W H s"
  shows "grids_ok W H (snd (get_next_state cs s))"
proof -
  obtain hp g where s: "s = (hp, g)" by (cases s)
  have cur: "cur_state g < length hp" and sh: "shaped W H (hp ! cur_state g)"
    and bi: "binary (hp ! cur_state g)"
    using assms s by (simp_all add: grids_ok_def cur_grid_def)
  show ?thesis
  proof (cases "0 < W \<and> 0 < H")
    case True
    then have pos: "0 < W" "0 < H" by simp_all
    have n: "shaped W H (next_grid (alive_func g) (hp ! cur_state g))"
      using shaped_next_grid[OF sh pos(1)] .
    show ?thesis
      unfolding s get_next_state_eq[OF cur sh pos]
      using cur sh bi n binary_next_grid
      by (simp add: grids_ok_def cur_grid_def last_grid_def nth_append)
  next
    case False
    have s0: "shape0 (hp ! cur_state g) = W" using sh by (rule shaped_shape0)
    have "shape0 (hp ! cur_state g) = 0 \<or> shape1 (hp ! cur_state g) = 0"
    proof (cases "0 < W")
      case True
      then have "H = 0" using False by simp
      then show ?thesis using shaped_shape1[OF sh True] by simp
    next
      case False
      then show ?thesis using s0 by simp
    qed
    then have "snd (get_next_state cs s) =
        (hp @ [np_zeros (shape0 (hp ! cur_state g)) (shape1 (hp ! cur_state g))],
         g\<lparr>last_state := cur_state g\<rparr>)"
      using s cur by (simp add: get_next_state_def Let_def nth_append)
    then show ?thesis
      using cur sh bi by (simp add: grids_ok_def cur_grid_def last_grid_def nth_append)
  qed
qed

lemma setitem_form:
  "setitem a x y v = Inr a' \<Longrightarrow> \<exists>i j. a' = a[i := (a ! i)[j := v]]"
  by (auto simp: setitem_def split: sum.splits)

lemma grids_ok_write:
  assumes "grids_ok W H (hp, g)" "setitem (hp ! cur_state g) x y v = Inr a" "v = 0 \<or> v = 1"
  shows "grids_ok W H (hp[cur_state g := a], g)"
proof -
  obtain i j where a: "a = (hp ! cur_state g)[i := (hp ! cur_state g ! i)[j := v]]"
    using setitem_form[OF assms(2)] by auto
  have c: "cur_state g < length hp" "last_state g < length hp"
    and sh: "shaped W H (hp ! cur_state g)" "shaped W H (hp ! last_state g)"
    and bi: "binary (hp ! cur_state g)" "binary (hp ! last_state g)"
    using assms(1) by (simp_all add: grids_ok_def cur_grid_def last_grid_def)
  have sa: "shaped W H a" unfolding a using sh(1) by (rule shaped_update)
  have ba: "binary a" unfolding a using bi(1) assms(3) by (rule binary_update)
  show ?thesis
    using c sh bi sa ba
    by (simp add: grids_ok_def cur_grid_def last_grid_def nth_list_update)
qed

lemma toggle_cell_cases:
  "gol (snd (snd (toggle_cell e (hp, cv)))) = gol cv \<and>
   (fst (snd (toggle_cell e (hp, cv))) = hp \<or>
    (\<exists>a v. (v = 0 \<or> v = 1) \<and>
       setitem (hp ! cur_state (gol cv)) (fst e div cw) (snd e div ch) v = Inr a \<and>
       fst (snd (toggle_cell e (hp, cv))) = hp[cur_state (gol cv) := a]))"
  by (auto simp: toggle_cell_def Let_def split: sum.splits prod.splits)

lemma grids_ok_toggle:
  assumes "grids_ok W H (engine_of s)"
  shows "grids_ok W H (engine_of (snd (toggle_cell e s)))"
proof -
  obtain hp cv where s: "s = (hp, cv)" by (cases s)
  have g: "grids_ok W H (hp, gol cv)" using assms s by (simp add: engine_of_def)
  note t = toggle_cell_cases[of e hp cv]
  have e: "engine_of (snd (toggle_cell e s)) = (fst (snd (toggle_cell e (hp, cv))), gol cv)"
    using t s by (simp add: engine_of_def)
  from t have "fst (snd (toggle_cell e (hp, cv))) = hp \<or>
    (\<exists>a v. (v = 0 \<or> v = 1) \<and>
       setitem (hp ! cur_state (gol cv)) (fst e div cw) (snd e div ch) v = Inr a \<and>
       fst (snd (toggle_cell e (hp, cv))) = hp[cur_state (gol cv) := a])" by simp
  then show ?thesis
  proof
    assume "fst (snd (toggle_cell e (hp, cv))) = hp"
    then show ?thesis using e g by simp
  next
    assume "\<exists>a v. (v = 0 \<or> v = 1) \<and>
       setitem (hp ! cur_state (gol cv)) (fst e div cw) (snd e div ch) v = Inr a \<and>
       fst (snd (toggle_cell e (hp, cv))) = hp[cur_state (gol cv) := a]"
    then obtain a v where v: "v = 0 \<or> v = 1"
      and st: "setitem (hp ! cur_state (gol cv)) (fst e div cw) (snd e div ch) v = Inr a"
      and h: "fst (snd (toggle_cell e (hp, cv))) = hp[cur_state (gol cv) := a]" by auto
    show ?thesis using e h grids_ok_write[OF g st v] by simp
  qed
qed

lemma clear_loop_grids_ok:
  "grids_ok W H (hp, g) \<Longrightarrow> grids_ok W H (snd (clear_loop (cur_state g) idxs hp), g)"
proof (induction idxs arbitrary: hp)
  case Nil
  then show ?case by simp
next
  case (Cons q idxs)
  obtain x y where q: "q = (x, y)" by (cases q)
  show ?case
  proof (cases "setitem (hp ! cur_state g) (int x) (int y) 0")
    case (Inl e)
    then show ?thesis using q Cons.prems by simp
  next
    case (Inr a)
    have "grids_ok W H (hp[cur_state g := a], g)"
      using grids_ok_write[OF Cons.prems Inr] by simp
    then show ?thesis using q Inr Cons.IH by simp
  qed
qed

lemma grids_ok_clear:
  assumes "grids_ok W H (engine_of s)"
  shows "grids_ok W H (engine_of (snd (clear s)))"
proof -
  obtain hp cv where s: "s = (hp, cv)" by (cases s)
  have g: "grids_ok W H (hp, gol cv)" using assms s by (simp add: engine_of_def)
  let ?idx = "List.product [0..<cv_w cv] [0..<cv_h cv]"
  let ?r = "clear_canvas_loop ?idx cv"
  have fr: "gol (snd ?r) = gol cv" "cv_w (snd ?r) = cv_w cv" "cv_h (snd ?r) = cv_h cv"
    using clear_canvas_loop_frame[of ?idx cv] by simp_all
  have cc: "clear_canvas cv = (fst ?r, snd ?r)" by (simp add: clear_canvas_def)
  show ?thesis
  proof (cases "fst ?r")
    case (Inl e)
    then have "snd (clear s) = (hp, snd ?r)" using s cc by (simp add: clear_def)
    then show ?thesis using g fr by (simp add: engine_of_def)
  next
    case (Inr u)
    then have "engine_of (snd (clear s)) = (snd (clear_loop (cur_state (gol cv)) ?idx hp), gol cv)"
      using s cc fr by (simp add: clear_def engine_of_def split: prod.splits sum.splits)
    then show ?thesis using clear_loop_grids_ok[OF g, of ?idx] by simp
  qed
qed

lemma grids_ok_apply_op:
  assumes "grids_ok W H (engine_of s)"
  shows "grids_ok W H (engine_of (apply_op c s))"
proof (cases c)
  case (Step cs)
  have "grids_ok W H (snd (get_next_state cs (fst s, gol (snd s))))"
    using grids_ok_step[of W H "(fst s, gol (snd s))" cs] assms by (simp add: engine_of_def)
  then show ?thesis using Step by (simp add: engine_of_def case_prod_beta)
next
  case (Toggle ex ey)
  then show ?thesis using grids_ok_toggle[OF assms] by simp
next
  case Clear
  then show ?thesis using grids_ok_clear[OF assms] by simp
qed

lemma grids_ok_apply_ops:
  "grids_ok W H (engine_of s) \<Longrightarrow> grids_ok W H (engine_of (apply_ops cs s))"
proof (induction cs arbitrary: s)
  case Nil
  then show ?case by simp
next
  case (Cons c cs)
  show ?case using Cons.IH[OF grids_ok_apply_op[OF Cons.prems]] by simp
qed

lemma grids_ok_init:
  assumes "initial_state < length hp" "shaped W H (hp ! initial_state)" "binary (hp ! initial_state)"
  shows "grids_ok W H (GameOfLife_init initial_state wr hp)"
  using assms
  by (simp add: grids_ok_def GameOfLife_init_def cur_grid_def last_grid_def nth_append)

text \<open>
  Claim C8. For every engine constructed by \<open>GameOfLife.__init__\<close> from an allocated
  array of shape \<open>(W, H)\<close> whose cells are all \<open>0\<close> or \<open>1\<close>, with either edge policy, and
  every canvas holding it: after any sequence of steps, toggles and clears, every cell
  of the current and of the previous generation is \<open>0\<close> or \<open>1\<close>, and both generations
  have the shape \<open>(W, H)\<close>. Operations that raise are part of the sequence.
\<close>

theorem cells_binary_shapes_equal:
  assumes "initial_state < length hp" "shaped W H (hp ! initial_state)"
    "binary (hp ! initial_state)" "gol cv = snd (GameOfLife_init initial_state wr hp)"
  shows "binary (cur_grid (engine_of (apply_ops cs (fst (GameOfLife_init initial_state wr hp), cv))))
       \<and> binary (last_grid (engine_of (apply_ops cs (fst (GameOfLife_init initial_state wr hp), cv))))
       \<and> shaped W H (cur_grid (engine_of (apply_ops cs (fst (GameOfLife_init initial_state wr hp), cv))))
       \<and> shaped W H (last_grid (engine_of (apply_ops cs (fst (GameOfLife_init initial_state wr hp), cv))))"
proof -
  have "grids_ok W H (engine_of (fst (GameOfLife_init initial_state wr hp), cv))"
    using grids_ok_init[OF assms(1,2,3), of wr] assms(4) by (simp add: engine_of_def)
  from grids_ok_apply_ops[OF this, of cs] show ?thesis
    by (simp add: grids_ok_def)
qed

theorem cells_binary_shapes_equal_witness:
  "shaped 2 2 ([[[0,1],[1,1]]] ! 0) \<and> binary ([[[0,1],[1,1]]] ! 0)
   \<and> binary (cur_grid
       (engine_of (apply_ops [Toggle 0 0, Step True, Toggle 16 16, Clear, Toggle 16 0, Step False]
         (fst (GameOfLife_init 0 False [[[0,1],[1,1]]]),
          \<lparr>cv_w = 2, cv_h = 2, gol = snd (GameOfLife_init 0 False [[[0,1],[1,1]]]),
           canvas = new_canvas, cells = [[None, None], [None, None]]\<rparr>))))
   \<and> binary (last_grid
       (engine_of (apply_ops [Toggle 0 0, Step True, Toggle 16 16, Clear, Toggle 16 0, Step False]
         (fst (GameOfLife_init 0 False [[[0,1],[1,1]]]),
          \<lparr>cv_w = 2, cv_h = 2, gol = snd (GameOfLife_init 0 False [[[0,1],[1,1]]]),
           canvas = new_canvas, cells = [[None, None], [None, None]]\<rparr>))))
   \<and> shaped 2 2 (cur_grid
       (engine_of (apply_ops [Toggle 0 0, Step True, Toggle 16 16, Clear, Toggle 16 0, Step False]
         (fst (GameOfLife_init 0 False [[[0,1],[1,1]]]),
          \<lparr>cv_w = 2, cv_h = 2, gol = snd (GameOfLife_init 0 False [[[0,1],[1,1]]]),
           canvas = new_canvas, cells = [[None, None], [None, None]]\<rparr>))))
   \<and> shaped 2 2 (last_grid
       (engine_of (apply_ops [Toggle 0 0, Step True, Toggle 16 16, Clear, Toggle 16 0, Step False]
         (fst (GameOfLife_init 0 False [[[0,1],[1,1]]]),
          \<lparr>cv_w = 2, cv_h = 2, gol = snd (GameOfLife_init 0 False [[[0,1],[1,1]]]),
           canvas = new_canvas, cells = [[None, None], [None, None]]\<rparr>))))
   \<and> cur_grid
       (engine_of (apply_ops [Toggle 0 0, Step True, Toggle 16 16, Clear, Toggle 16 0, Step False]
         (fst (GameOfLife_init 0 False [[[0,1],[1,1]]]),
          \<lparr>cv_w = 2, cv_h = 2, gol = snd (GameOfLife_init 0 False [[[0,1],[1,1]]]),
           canvas = new_canvas, cells = [[None, None], [None, None]]\<rparr>)))
     \<noteq> last_grid
       (engine_of (apply_ops [Toggle 0 0, Step True, Toggle 16 16, Clear, Toggle 16 0, Step False]
         (fst (GameOfLife_init 0 False [[[0,1],[1,1]]]),
          \<lparr>cv_w = 2, cv_h = 2, gol = snd (GameOfLife_init 0 False [[[0,1],[1,1]]]),
           canvas = new_canvas, cells = [[None, None], [None, None]]\<rparr>)))"
proof -
  have h1: "(0::nat) < length [[[0,1],[1,1::int]]]" by simp
  have h2: "shaped 2 2 ([[[0,1],[1,1]]] ! 0)" by code_simp
  have h3: "binary ([[[0,1],[1,1]]] ! 0)" by code_simp
  have h4: "gol \<lparr>cv_w = 2, cv_h = 2, gol = snd (GameOfLife_init 0 False [[[0,1],[1,1]]]),
           canvas = new_canvas, cells = [[None, None], [None, None]]\<rparr> = snd (GameOfLife_init 0 False [[[0,1],[1,1]]])" by simp
  have d: "cur_grid
       (engine_of (apply_ops [Toggle 0 0, Step True, Toggle 16 16, Clear, Toggle 16 0, Step False]
         (fst (GameOfLife_init 0 False [[[0,1],[1,1]]]),
          \<lparr>cv_w = 2, cv_h = 2, gol = snd (GameOfLife_init 0 False [[[0,1],[1,1]]]),
           canvas = new_canvas, cells = [[None, None], [None, None]]\<rparr>)))
     \<noteq> last_grid
       (engine_of (apply_ops [Toggle 0 0, Step True, Toggle 16 16, Clear, Toggle 16 0, Step False]
         (fst (GameOfLife_init 0 False [[[0,1],[1,1]]]),
          \<lparr>cv_w = 2, cv_h = 2, gol = snd (GameOfLife_init 0 False [[[0,1],[1,1]]]),
           canvas = new_canvas, cells = [[None, None], [None, None]]\<rparr>)))"
    by code_simp
  show ?thesis
    using h2 h3 d cells_binary_shapes_equal[OF h1 h2 h3 h4, of "[Toggle 0 0, Step True, Toggle 16 16, Clear, Toggle 16 0, Step False]"]
    by simp
qed

section \<open>The neighbour count with wrapping\<close>

lemma take3_drop:
  assumes "k + 3 \<le> length xs"
  shows "take 3 (drop k xs) = [xs ! k, xs ! (k + 1), xs ! (k + 2)]"
proof (rule nth_equalityI)
  show "length (take 3 (drop k xs)) = length [xs ! k, xs ! (k + 1), xs ! (k + 2)]"
    using assms by simp
next
  fix i assume "i < length (take 3 (drop k xs))"
  then have "i < 3" by simp
  then consider "i = 0" | "i = 1" | "i = 2" by linarith
  then show "take 3 (drop k xs) ! i = [xs ! k, xs ! (k + 1), xs ! (k + 2)] ! i"
    using assms by cases simp_all
qed

lemma py_slice_interior:
  assumes "0 < k" "k + 1 < length xs"
  shows "py_slice xs (int k - 1) (int k + 2) = [xs ! (k - 1), xs ! k, xs ! (k + 1)]"
proof -
  have a: "slice_index (length xs) (int k - 1) = k - 1"
    using assms by (simp add: slice_index_def nat_diff_distrib)
  have "nat (int k + 2) = k + 2" by (simp add: nat_add_distrib)
  then have b: "slice_index (length xs) (int k + 2) = k + 2"
    using assms by (simp add: slice_index_def)
  have c: "(k + 2) - (k - 1) = 3" using assms by simp
  have d: "(k - 1) + 3 \<le> length xs" using assms by simp
  have "py_slice xs (int k - 1) (int k + 2) = take 3 (drop (k - 1) xs)"
    unfolding py_slice_def a b c ..
  then show ?thesis using take3_drop[OF d] assms by simp
qed

lemma window_interior:
  assumes "shaped W H a" "0 < x" "x + 1 < W" "0 < y" "y + 1 < H"
  shows "np_sum (window a (int x) (int y)) =
      a ! (x - 1) ! (y - 1) + a ! (x - 1) ! y + a ! (x - 1) ! (y + 1)
    + a ! x ! (y - 1) + a ! x ! y + a ! x ! (y + 1)
    + a ! (x + 1) ! (y - 1) + a ! (x + 1) ! y + a ! (x + 1) ! (y + 1)"
proof -
  have la: "length a = W" using assms(1) by (simp add: shaped_def)
  have rows: "py_slice a (int x - 1) (int x + 2) = [a ! (x - 1), a ! x, a ! (x + 1)]"
    using py_slice_interior[of x a] assms(2,3) la by simp
  have lr: "length (a ! (x - 1)) = H" "length (a ! x) = H" "length (a ! (x + 1)) = H"
    using assms(1,3) by (simp_all add: shaped_def)
  have r: "\<And>r :: int list. length r = H \<Longrightarrow>
      py_slice r (int y - 1) (int y + 2) = [r ! (y - 1), r ! y, r ! (y + 1)]"
  proof -
    fix r :: "int list" assume "length r = H"
    then have "y + 1 < length r" using assms(5) by simp
    then show "py_slice r (int y - 1) (int y + 2) = [r ! (y - 1), r ! y, r ! (y + 1)]"
      by (rule py_slice_interior[OF assms(4)])
  qed
  have w: "window a (int x) (int y) =
      [[a ! (x - 1) ! (y - 1), a ! (x - 1) ! y, a ! (x - 1) ! (y + 1)],
       [a ! x ! (y - 1), a ! x ! y, a ! x ! (y + 1)],
       [a ! (x + 1) ! (y - 1), a ! (x + 1) ! y, a ! (x + 1) ! (y + 1)]]"
    unfolding window_def rows
    by (simp only: list.map r[OF lr(1)] r[OF lr(2)] r[OF lr(3)])
  show ?thesis
    unfolding w np_sum_def by simp
qed

lemma toroidal_interior:
  assumes "shaped W H a" "0 < x" "x + 1 < W" "0 < y" "y + 1 < H"
  shows "toroidal_count_spec a x y =
      a ! (x - 1) ! (y - 1) + a ! (x - 1) ! y + a ! (x - 1) ! (y + 1)
    + a ! x ! (y - 1) + a ! x ! (y + 1)
    + a ! (x + 1) ! (y - 1) + a ! (x + 1) ! y + a ! (x + 1) ! (y + 1)"
proof -
  have s: "shape0 a = W" "shape1 a = H"
    using assms shaped_shape0[OF assms(1)] shaped_shape1[OF assms(1)] by simp_all
  have mx: "nat ((int x - 1) mod int W) = x - Suc 0" "nat (int x mod int W) = x"
    "nat ((int x + 1) mod int W) = Suc x"
    using assms(2,3) by (simp_all add: nat_diff_distrib nat_add_distrib)
  have my: "nat ((int y - 1) mod int H) = y - Suc 0" "nat (int y mod int H) = y"
    "nat ((int y + 1) mod int H) = Suc y"
    using assms(4,5) by (simp_all add: nat_diff_distrib nat_add_distrib)
  show ?thesis
    unfolding toroidal_count_spec_def neighbor_offsets_def s
    by (simp add: mx my)
qed

lemma sum_list_ge_member:
  "\<forall>v\<in>set xs. (0::int) \<le> v \<Longrightarrow> u \<in> set xs \<Longrightarrow> u \<le> sum_list xs"
proof (induction xs)
  case Nil
  then show ?case by simp
next
  case (Cons a xs)
  have nn: "0 \<le> sum_list xs" using Cons.prems(1) by (simp add: sum_list_nonneg)
  show ?case
  proof (cases "u = a")
    case True
    then show ?thesis using nn by simp
  next
    case False
    then have "u \<in> set xs" using Cons.prems(2) by simp
    then have "u \<le> sum_list xs" using Cons.IH Cons.prems(1) by simp
    moreover have "0 \<le> a" using Cons.prems(1) by simp
    ultimately show ?thesis by simp
  qed
qed

lemma wrapped_cell_binary:
  assumes "shaped W H a" "binary a" "0 < W" "0 < H"
  shows "a ! nat (i mod int W) ! nat (j mod int H) = 0 \<or> a ! nat (i mod int W) ! nat (j mod int H) = 1"
proof -
  have x: "nat (i mod int W) < length a"
    using wrapped_lt[OF assms(3), of i] assms(1) by (simp add: shaped_def)
  have "length (a ! nat (i mod int W)) = H"
    using shaped_row[OF assms(1) wrapped_lt[OF assms(3), of i]] .
  then have y: "nat (j mod int H) < length (a ! nat (i mod int W))"
    using wrapped_lt[OF assms(4), of j] by simp
  show ?thesis using binary_nth[OF assms(2) x y] .
qed

lemma neighbor_offsets_eq: "neighbor_offsets = filter (\<lambda>d. d \<noteq> (0, 0)) offsets"
  by (simp add: neighbor_offsets_def offsets_def)

lemma neighbors_alive_wrapping_toroidal:
  assumes "shaped W H a" "binary a" "x < W" "y < H"
  shows "neighbors_alive_wrapping (int x) (int y) a = Inr (toroidal_count_spec a x y)"
proof -
  have pos: "0 < W" "0 < H" using assms(3,4) by simp_all
  have s: "shape0 a = W" "shape1 a = H"
    using shaped_shape0[OF assms(1)] shaped_shape1[OF assms(1) pos(1)] by simp_all
  show ?thesis
  proof (cases "(0 < int x \<and> int x < int (shape0 a) - 1) \<and> (0 < int y \<and> int y < int (shape1 a) - 1)")
    case True
    then have i: "0 < x" "x + 1 < W" "0 < y" "y + 1 < H" using s by simp_all
    have g: "getitem a (int x) (int y) = Inr (a ! x ! y)"
      using assms by (simp add: getitem_nat shaped_def)
    have "neighbors_alive_wrapping (int x) (int y) a
          = Inr (np_sum (window a (int x) (int y)) - a ! x ! y)"
      using True g by (simp add: neighbors_alive_wrapping_def)
    then show ?thesis
      using window_interior[OF assms(1) i] toroidal_interior[OF assms(1) i] by simp
  next
    case False
    have eq: "neighbors_alive_wrapping (int x) (int y) a = count_loop (int x) (int y) a offsets 0"
      unfolding neighbors_alive_wrapping_def by (rule if_not_P[OF False])
    have m: "map (\<lambda>(i, j).
                if a ! nat ((int x + i) mod int W) ! nat ((int y + j) mod int H) = 1 then 1 else 0)
              (filter (\<lambda>d. d \<noteq> (0, 0)) offsets)
           = map (\<lambda>(i, j). a ! nat ((int x + i) mod int W) ! nat ((int y + j) mod int H))
              (filter (\<lambda>d. d \<noteq> (0, 0)) offsets)"
    proof (rule map_cong[OF refl])
      fix d assume "d \<in> set (filter (\<lambda>d. d \<noteq> (0, 0)) offsets)"
      obtain i j where d: "d = (i, j)" by (cases d)
      have "a ! nat ((int x + i) mod int W) ! nat ((int y + j) mod int H) = 0
          \<or> a ! nat ((int x + i) mod int W) ! nat ((int y + j) mod int H) = 1"
        using wrapped_cell_binary[OF assms(1,2) pos] .
      then show "(case d of (i, j) \<Rightarrow>
                if a ! nat ((int x + i) mod int W) ! nat ((int y + j) mod int H) = 1 then 1 else 0)
           = (case d of (i, j) \<Rightarrow> a ! nat ((int x + i) mod int W) ! nat ((int y + j) mod int H))"
        using d by auto
    qed
    have "count_loop (int x) (int y) a offsets 0
        = Inr (sum_list (map (\<lambda>(i, j). a ! nat ((int x + i) mod int W) ! nat ((int y + j) mod int H))
              (filter (\<lambda>d. d \<noteq> (0, 0)) offsets)))"
      using count_loop_sum[OF assms(1,3,4) offsets_range, of 0] m by simp
    then show ?thesis
      using eq by (simp add: toroidal_count_spec_def neighbor_offsets_eq s)
  qed
qed

lemma toroidal_corner:
  assumes "shaped W H a" "binary a" "0 < W" "0 < H" "a ! (W - 1) ! (H - 1) = 1"
  shows "1 \<le> toroidal_count_spec a 0 0"
proof -
  have s: "shape0 a = W" "shape1 a = H"
    using shaped_shape0[OF assms(1)] shaped_shape1[OF assms(1) assms(3)] by simp_all
  let ?f = "\<lambda>(dx, dy). a ! nat ((int 0 + dx) mod int W) ! nat ((int 0 + dy) mod int H)"
  have nn: "\<forall>v\<in>set (map ?f neighbor_offsets). 0 \<le> v"
  proof
    fix v assume "v \<in> set (map ?f neighbor_offsets)"
    then obtain d where v: "v = ?f d" by auto
    obtain i j where d: "d = (i, j)" by (cases d)
    have "a ! nat ((int 0 + i) mod int W) ! nat ((int 0 + j) mod int H) = 0
        \<or> a ! nat ((int 0 + i) mod int W) ! nat ((int 0 + j) mod int H) = 1"
      using wrapped_cell_binary[OF assms(1,2,3,4)] .
    then show "0 \<le> v" using v d by auto
  qed
  have mw: "nat ((int 0 + - 1) mod int W) = W - 1"
    using assms(3) by (simp add: zmod_minus1 nat_diff_distrib)
  have mh: "nat ((int 0 + - 1) mod int H) = H - 1"
    using assms(4) by (simp add: zmod_minus1 nat_diff_distrib)
  have "(- 1, - 1) \<in> set neighbor_offsets" by (simp add: neighbor_offsets_def)
  then have "?f (- 1, - 1) \<in> set (map ?f neighbor_offsets)"
    unfolding set_map by (rule imageI)
  moreover have "?f (- 1, - 1) = 1" using mw mh assms(5) by simp
  ultimately have "1 \<in> set (map ?f neighbor_offsets)" by simp
  from sum_list_ge_member[OF nn this] show ?thesis
    by (simp add: toroidal_count_spec_def s)
qed

text \<open>
  Claim C3. With wrapping edges, on every binary grid and for every in-bounds cell, the
  neighbour count of the code (the window sum for strictly interior cells, the loop over
  the eight directions for the others) returns normally and equals the toroidal count of
  the specification, \<open>(x + dx) mod W\<close> and \<open>(y + dy) mod H\<close> with the non-negative modulo
  over all eight offsets. In particular an ALIVE cell at \<open>(W - 1, H - 1)\<close> is counted as a
  neighbour of the corner cell (0,0).
\<close>

theorem wrapping_count_is_toroidal:
  assumes "shaped W H state" "binary state" "x < W" "y < H"
  shows "neighbors_alive_wrapping (int x) (int y) state = Inr (toroidal_count_spec state x y)
       \<and> (state ! (W - 1) ! (H - 1) = 1
            \<longrightarrow> (\<exists>n. neighbors_alive_wrapping 0 0 state = Inr n \<and> 1 \<le> n))"
proof
  show "neighbors_alive_wrapping (int x) (int y) state = Inr (toroidal_count_spec state x y)"
    using neighbors_alive_wrapping_toroidal[OF assms] .
next
  have pos: "0 < W" "0 < H" using assms(3,4) by simp_all
  show "state ! (W - 1) ! (H - 1) = 1
            \<longrightarrow> (\<exists>n. neighbors_alive_wrapping 0 0 state = Inr n \<and> 1 \<le> n)"
  proof
    assume c: "state ! (W - 1) ! (H - 1) = 1"
    have "neighbors_alive_wrapping (int 0) (int 0) state = Inr (toroidal_count_spec state 0 0)"
      using neighbors_alive_wrapping_toroidal[OF assms(1,2) pos] .
    then show "\<exists>n. neighbors_alive_wrapping 0 0 state = Inr n \<and> 1 \<le> n"
      using toroidal_corner[OF assms(1,2) pos c] by simp
  qed
qed

theorem wrapping_count_is_toroidal_witness:
  "shaped 4 3 [[0,0,0],[0,0,0],[0,0,0],[0,0,1]] \<and> binary [[0,0,0],[0,0,0],[0,0,0],[0,0,1]]
   \<and> neighbors_alive_wrapping 0 0 [[0,0,0],[0,0,0],[0,0,0],[0,0,1]] = Inr 1
   \<and> toroidal_count_spec [[0,0,0],[0,0,0],[0,0,0],[0,0,1]] 0 0 = 1
   \<and> neighbors_alive 0 0 [[0,0,0],[0,0,0],[0,0,0],[0,0,1]] = Inr 0"
proof -
  have h1: "shaped 4 3 [[0,0,0],[0,0,0],[0,0,0],[0,0,1]]" by code_simp
  have h2: "binary [[0,0,0],[0,0,0],[0,0,0],[0,0,1]]" by code_simp
  have h3: "(0::nat) < 4" "(0::nat) < 3" by simp_all
  have t: "toroidal_count_spec [[0,0,0],[0,0,0],[0,0,0],[0,0,1]] 0 0 = 1" by code_simp
  have c: "neighbors_alive 0 0 [[0,0,0],[0,0,0],[0,0,0],[0,0,1]] = Inr 0" by code_simp
  show ?thesis
    using h1 h2 t c wrapping_count_is_toroidal[OF h1 h2 h3]
    by simp
qed

section \<open>Where the count without wrapping is right, and where it is not\<close>

lemma neighbors_alive_row0:
  assumes "shaped W H a" "3 \<le> W" "y < H"
  shows "neighbors_alive 0 (int y) a = Inr (- (a ! 0 ! y))"
proof -
  have la: "length a = W" using assms(1) by (simp add: shaped_def)
  have "0 < length a" "y < length (a ! 0)"
    using assms la by (simp_all add: shaped_def)
  from getitem_nat[OF this] have g: "getitem a 0 (int y) = Inr (a ! 0 ! y)"
    by simp
  have "slice_index W (0 - 1) = W - 1" "slice_index W (0 + 2) = 2"
    using assms(2) by (simp_all add: slice_index_def nat_diff_distrib)
  then have "py_slice a (0 - 1) (0 + 2) = []"
    using assms(2) la by (simp add: py_slice_def)
  then have "np_sum (window a 0 (int y)) = 0"
    by (simp add: window_def np_sum_def)
  then show ?thesis using g by (simp add: neighbors_alive_def)
qed

lemma take2_drop:
  assumes "k + 2 \<le> length xs"
  shows "take 2 (drop k xs) = [xs ! k, xs ! (k + 1)]"
proof (rule nth_equalityI)
  show "length (take 2 (drop k xs)) = length [xs ! k, xs ! (k + 1)]"
    using assms by simp
next
  fix i assume "i < length (take 2 (drop k xs))"
  then have "i < 2" by simp
  then consider "i = 0" | "i = 1" by linarith
  then show "take 2 (drop k xs) ! i = [xs ! k, xs ! (k + 1)] ! i"
    using assms by cases simp_all
qed

lemma py_slice_last:
  assumes "0 < k" "k + 1 = length xs"
  shows "py_slice xs (int k - 1) (int k + 2) = [xs ! (k - 1), xs ! k]"
proof -
  have a: "slice_index (length xs) (int k - 1) = k - 1"
    using assms by (simp add: slice_index_def nat_diff_distrib)
  have "nat (int k + 2) = k + 2" by (simp add: nat_add_distrib)
  then have b: "slice_index (length xs) (int k + 2) = k + 1"
    using assms by (simp add: slice_index_def)
  have c: "(k + 1) - (k - 1) = 2" using assms by simp
  have d: "(k - 1) + 2 \<le> length xs" using assms by simp
  have "py_slice xs (int k - 1) (int k + 2) = take 2 (drop (k - 1) xs)"
    unfolding py_slice_def a b c ..
  then show ?thesis using take2_drop[OF d] assms by simp
qed

lemma py_slice_from1:
  assumes "0 < k" "k < length xs"
  shows "py_slice xs (int k - 1) (int k + 2)
         = [xs ! (k - 1), xs ! k] @ (if k + 1 < length xs then [xs ! (k + 1)] else [])"
proof (cases "k + 1 < length xs")
  case True
  then show ?thesis using py_slice_interior[OF assms(1) True] by simp
next
  case False
  then have "k + 1 = length xs" using assms(2) by simp
  from py_slice_last[OF assms(1) this] show ?thesis using False by simp
qed

lemma inbounds_count_unrolled:
  assumes "shaped W H a" "binary a" "0 < x" "x < W" "0 < y" "y < H"
  shows "inbounds_count_spec a x y =
      a ! (x - 1) ! (y - 1) + a ! (x - 1) ! y + (if y + 1 < H then a ! (x - 1) ! (y + 1) else 0)
    + a ! x ! (y - 1) + (if y + 1 < H then a ! x ! (y + 1) else 0)
    + (if x + 1 < W then a ! (x + 1) ! (y - 1) + a ! (x + 1) ! y
          + (if y + 1 < H then a ! (x + 1) ! (y + 1) else 0) else 0)"
proof -
  have s: "shape0 a = W" "shape1 a = H"
    using shaped_shape0[OF assms(1)] shaped_shape1[OF assms(1)] assms(4) by simp_all
  have b: "\<And>i j. i < W \<Longrightarrow> j < H \<Longrightarrow> (if a ! i ! j = 1 then 1 else 0) = a ! i ! j"
  proof -
    fix i j assume ij: "i < W" "j < H"
    have "i < length a" "j < length (a ! i)" using assms(1) ij by (simp_all add: shaped_def)
    from binary_nth[OF assms(2) this] show "(if a ! i ! j = 1 then 1 else 0) = a ! i ! j" by auto
  qed
  let ?inb = "\<lambda>dx dy. 0 \<le> int x + dx \<and> int x + dx < int W \<and> 0 \<le> int y + dy \<and> int y + dy < int H"
  have e: "map (\<lambda>(dx, dy). if 0 \<le> int x + dx \<and> int x + dx < int W \<and> 0 \<le> int y + dy \<and>
                      int y + dy < int H \<and> a ! nat (int x + dx) ! nat (int y + dy) = 1
                   then 1 else 0) neighbor_offsets
         = map (\<lambda>(dx, dy). if ?inb dx dy then a ! nat (int x + dx) ! nat (int y + dy)
                   else 0) neighbor_offsets"
  proof (rule map_cong[OF refl])
    fix d assume "d \<in> set neighbor_offsets"
    obtain dx dy where d: "d = (dx, dy)" by (cases d)
    show "(case d of (dx, dy) \<Rightarrow> if 0 \<le> int x + dx \<and> int x + dx < int W \<and> 0 \<le> int y + dy \<and>
                      int y + dy < int H \<and> a ! nat (int x + dx) ! nat (int y + dy) = 1
                   then 1 else 0)
        = (case d of (dx, dy) \<Rightarrow> if ?inb dx dy then a ! nat (int x + dx) ! nat (int y + dy)
                   else (0::int))"
    proof (cases "?inb dx dy")
      case True
      then have "nat (int x + dx) < W" "nat (int y + dy) < H" by (simp_all add: nat_less_iff)
      from b[OF this] show ?thesis using d True by simp
    next
      case False
      then have f2: "\<not> (0 \<le> int x + dx \<and> int x + dx < int W \<and> 0 \<le> int y + dy \<and>
                      int y + dy < int H \<and> a ! nat (int x + dx) ! nat (int y + dy) = 1)"
        by (rule contrapos_nn) (simp only: simp_thms)
      show ?thesis
        unfolding d prod.case if_not_P[OF False] if_not_P[OF f2] by (rule refl)
    qed
  qed
  have n: "nat (int x - 1) = x - Suc 0" "nat (int x + 1) = Suc x"
          "nat (int y - 1) = y - Suc 0" "nat (int y + 1) = Suc y"
    using assms(3,5) by (simp_all add: nat_diff_distrib nat_add_distrib)
  have "inbounds_count_spec a x y
        = sum_list (map (\<lambda>(dx, dy). if ?inb dx dy then a ! nat (int x + dx) ! nat (int y + dy)
                   else 0) neighbor_offsets)"
    unfolding inbounds_count_spec_def s e ..
  also have "\<dots> =
      a ! (x - 1) ! (y - 1) + a ! (x - 1) ! y + (if y + 1 < H then a ! (x - 1) ! (y + 1) else 0)
    + a ! x ! (y - 1) + (if y + 1 < H then a ! x ! (y + 1) else 0)
    + (if x + 1 < W then a ! (x + 1) ! (y - 1) + a ! (x + 1) ! y
          + (if y + 1 < H then a ! (x + 1) ! (y + 1) else 0) else 0)"
    unfolding neighbor_offsets_def
    using assms(3,4,5,6)
    by (simp add: n)
  finally show ?thesis .
qed

lemma row_sum_from1:
  assumes "0 < y" "y < length r"
  shows "sum_list (py_slice r (int y - 1) (int y + 2))
         = r ! (y - 1) + r ! y + (if y + 1 < length r then r ! (y + 1) else (0::int))"
  using py_slice_from1[OF assms] by simp

lemma neighbors_alive_from1:
  assumes "shaped W H a" "binary a" "0 < x" "x < W" "0 < y" "y < H"
  shows "neighbors_alive (int x) (int y) a = Inr (inbounds_count_spec a x y)"
proof -
  have la: "length a = W" using assms(1) by (simp add: shaped_def)
  have lr: "length (a ! (x - 1)) = H" "length (a ! x) = H"
    using assms(1,4) by (simp_all add: shaped_def)
  have g: "getitem a (int x) (int y) = Inr (a ! x ! y)"
    using assms la lr by (simp add: getitem_nat)
  have rows: "py_slice a (int x - 1) (int x + 2)
         = [a ! (x - 1), a ! x] @ (if x + 1 < W then [a ! (x + 1)] else [])"
    using py_slice_from1[of x a] assms(3,4) la by simp
  have r1: "sum_list (py_slice (a ! (x - 1)) (int y - 1) (int y + 2))
         = a ! (x - 1) ! (y - 1) + a ! (x - 1) ! y + (if y + 1 < H then a ! (x - 1) ! (y + 1) else 0)"
    using row_sum_from1[of y "a ! (x - 1)"] assms(5,6) lr(1) by simp
  have r2: "sum_list (py_slice (a ! x) (int y - 1) (int y + 2))
         = a ! x ! (y - 1) + a ! x ! y + (if y + 1 < H then a ! x ! (y + 1) else 0)"
    using row_sum_from1[of y "a ! x"] assms(5,6) lr(2) by simp
  have r3: "x + 1 < W \<Longrightarrow> sum_list (py_slice (a ! (x + 1)) (int y - 1) (int y + 2))
         = a ! (x + 1) ! (y - 1) + a ! (x + 1) ! y + (if y + 1 < H then a ! (x + 1) ! (y + 1) else 0)"
  proof -
    assume x1: "x + 1 < W"
    then have "length (a ! (x + 1)) = H" using assms(1) by (simp add: shaped_def)
    then show ?thesis using row_sum_from1[of y "a ! (x + 1)"] assms(5,6) by simp
  qed
  have w: "np_sum (window a (int x) (int y)) =
      sum_list (py_slice (a ! (x - 1)) (int y - 1) (int y + 2))
    + sum_list (py_slice (a ! x) (int y - 1) (int y + 2))
    + (if x + 1 < W then sum_list (py_slice (a ! (x + 1)) (int y - 1) (int y + 2)) else 0)"
    unfolding window_def np_sum_def rows by simp
  have "np_sum (window a (int x) (int y)) - a ! x ! y = inbounds_count_spec a x y"
    unfolding w r1 r2 inbounds_count_unrolled[OF assms]
    using r3 by simp
  then show ?thesis using g by (simp add: neighbors_alive_def)
qed

text \<open>
  Claim C2. Without wrapping, the neighbour count of every in-bounds cell, border cells
  included, should be the number of ALIVE cells among the in-bounds positions of its
  8-neighbourhood, so that a DEAD cell with exactly three ALIVE in-bounds neighbours is
  born. The code does this for every cell with \<open>x \<ge> 1\<close> and \<open>y \<ge> 1\<close>, the far borders
  included (lemma \<open>neighbors_alive_from1\<close>), but not in row 0 and column 0: there the
  slice \<open>state[x - 1:x + 2]\<close> starts at \<open>-1\<close>, which numpy reads as the last row, and on a
  grid of three rows or more the window is empty (lemma \<open>neighbors_alive_row0\<close>). On the
  3 by 3 grid whose middle row is ALIVE, the DEAD cell (0,1) has three ALIVE in-bounds
  neighbours, the count the code uses is 0, \<open>is_alive\<close> returns \<open>False\<close>, and after a step
  of the non-wrapping engine the cell is DEAD.
\<close>

theorem is_alive_row0_misses_neighbours:
  "neighbors_alive 0 1 [[0,0,0],[1,1,1],[0,0,0]] = Inr 0
   \<and> inbounds_count_spec [[0,0,0],[1,1,1],[0,0,0]] 0 1 = 3
   \<and> is_alive 0 1 [[0,0,0],[1,1,1],[0,0,0]] = Inr False
   \<and> cur_grid (snd (get_next_state True (GameOfLife_init 0 False [[[0,0,0],[1,1,1],[0,0,0]]])))
       = [[0,0,0],[0,1,0],[0,1,0]]"
proof -
  have a: "neighbors_alive 0 1 [[0,0,0],[1,1,1],[0,0,0]] = Inr 0"
    by code_simp
  have b: "inbounds_count_spec [[0,0,0],[1,1,1],[0,0,0]] 0 1 = 3"
    by code_simp
  have c: "is_alive 0 1 [[0,0,0],[1,1,1],[0,0,0]] = Inr False"
    by code_simp
  have d: "cur_grid (snd (get_next_state True (GameOfLife_init 0 False [[[0,0,0],[1,1,1],[0,0,0]]])))
       = [[0,0,0],[0,1,0],[0,1,0]]"
    by code_simp
  from a b c d show ?thesis by simp
qed

end
